theory Spec2Isabelle
  imports Main "HOL-Library.Word"
begin

unbundle bit_operations_syntax

section \<open>Machine types and the helpers of the runtime\<close>

text \<open>
  The generation lives in a 64-bit address space. A \<open>size_t\<close> is a 64-bit word whose
  arithmetic wraps. A \<open>HeapWord*\<close> or \<open>char*\<close> is the byte address it holds, also a
  64-bit word; adding \<open>n\<close> to a \<open>HeapWord*\<close> moves it by \<open>n * HeapWordSize\<close> bytes.
\<close>

type_synonym size_t = "64 word"
type_synonym addr = "64 word"

definition HeapWordSize :: size_t where
  "HeapWordSize = 8"

text \<open>\<open>p + n\<close> and \<open>p - n\<close> on a \<open>HeapWord*\<close>.\<close>

definition ptr_add :: "addr \<Rightarrow> size_t \<Rightarrow> addr" where
  "ptr_add p n = p + n * HeapWordSize"

definition ptr_sub :: "addr \<Rightarrow> size_t \<Rightarrow> addr" where
  "ptr_sub p n = p - n * HeapWordSize"

text \<open>
  Modelled from the spec: the helpers of \<open>utilities/align.hpp\<close> and
  \<open>utilities/globalDefinitions.hpp\<close>, which are not part of the sources at hand.
  \<open>align_down\<close> clears the bits below the alignment, \<open>align_up\<close> aligns down after
  adding \<open>alignment - 1\<close> (the addition wraps), \<open>pointer_delta\<close> is the distance of two
  pointers in heap words, \<open>clamp\<close> limits a value to an interval.
\<close>

definition is_power_of_2 :: "size_t \<Rightarrow> bool" where
  "is_power_of_2 a = (a \<noteq> 0 \<and> a AND (a - 1) = 0)"

definition align_down :: "size_t \<Rightarrow> size_t \<Rightarrow> size_t" where
  "align_down x a = x AND NOT (a - 1)"

definition align_up :: "size_t \<Rightarrow> size_t \<Rightarrow> size_t" where
  "align_up x a = align_down (x + (a - 1)) a"

definition is_aligned :: "size_t \<Rightarrow> size_t \<Rightarrow> bool" where
  "is_aligned x a = (x AND (a - 1) = 0)"

definition pointer_delta :: "addr \<Rightarrow> addr \<Rightarrow> size_t" where
  "pointer_delta left right = (left - right) div HeapWordSize"

definition clamp :: "size_t \<Rightarrow> size_t \<Rightarrow> size_t \<Rightarrow> size_t" where
  "clamp v lo hi = min (max v lo) hi"

section \<open>The collaborators\<close>

record MemRegion =
  mr_start :: addr
  mr_end :: addr

text \<open>
  Modelled from the spec: \<open>PSVirtualSpace\<close>, the virtual-memory reservation
  collaborator (\<open>psVirtualspace.cpp\<close> is not part of the sources at hand). The reserved
  region is fixed; the committed region is its sub-range \<open>[low, high)\<close>. \<open>expand_by\<close>
  commits \<open>bytes\<close> more at the top: it fails when less than \<open>bytes\<close> is left uncommitted
  or when the operating system refuses the commit, and changes nothing then.
  \<open>shrink_by\<close> uncommits \<open>bytes\<close> from the top and is assumed always possible.
\<close>

record PSVirtualSpace =
  vs_alignment :: size_t
  reserved_low_addr :: addr
  reserved_high_addr :: addr
  committed_low_addr :: addr
  committed_high_addr :: addr

definition committed_size :: "PSVirtualSpace \<Rightarrow> size_t" where
  "committed_size vs = committed_high_addr vs - committed_low_addr vs"

definition reserved_size :: "PSVirtualSpace \<Rightarrow> size_t" where
  "reserved_size vs = reserved_high_addr vs - reserved_low_addr vs"

definition uncommitted_size :: "PSVirtualSpace \<Rightarrow> size_t" where
  "uncommitted_size vs = reserved_size vs - committed_size vs"

definition vs_expand_by ::
  "(addr \<Rightarrow> size_t \<Rightarrow> bool) \<Rightarrow> size_t \<Rightarrow> PSVirtualSpace \<Rightarrow> bool \<times> PSVirtualSpace" where
  "vs_expand_by commit_memory bytes vs =
     (if uncommitted_size vs < bytes then (False, vs)
      else if commit_memory (committed_high_addr vs) bytes
        then (True, vs\<lparr>committed_high_addr := committed_high_addr vs + bytes\<rparr>)
      else (False, vs))"

definition vs_shrink_by :: "size_t \<Rightarrow> PSVirtualSpace \<Rightarrow> PSVirtualSpace" where
  "vs_shrink_by bytes vs = vs\<lparr>committed_high_addr := committed_high_addr vs - bytes\<rparr>"

text \<open>
  Modelled from the spec: \<open>MutableSpace\<close>, the allocation-space collaborator. Its
  \<open>initialize\<close> is the single call that publishes a new \<open>end\<close>; with \<open>DontClear\<close> the
  allocation frontier \<open>top\<close> stays where it is.
\<close>

record MutableSpace =
  ms_bottom :: addr
  ms_top :: addr
  ms_end :: addr

definition ms_initialize :: "MemRegion \<Rightarrow> bool \<Rightarrow> MutableSpace \<Rightarrow> MutableSpace" where
  "ms_initialize mr clear_space sp =
     (let sp1 = sp\<lparr>ms_bottom := mr_start mr, ms_end := mr_end mr\<rparr>
      in if clear_space then sp1\<lparr>ms_top := ms_bottom sp1\<rparr> else sp1)"

definition ms_used_in_bytes :: "MutableSpace \<Rightarrow> size_t" where
  "ms_used_in_bytes sp = pointer_delta (ms_top sp) (ms_bottom sp) * HeapWordSize"

definition ms_capacity_in_bytes :: "MutableSpace \<Rightarrow> size_t" where
  "ms_capacity_in_bytes sp = pointer_delta (ms_end sp) (ms_bottom sp) * HeapWordSize"

text \<open>
  Modelled from the spec: the object-start index (\<open>ObjectStartArray\<close>) and the card
  table (\<open>PSCardTable\<close>), reduced to what the generation asks of them. Each declares a
  covered region; the object-start index also knows, in address order, where the objects
  of the space start.
\<close>

record ObjectStartArray =
  sa_covered_region :: MemRegion
  sa_starts :: "addr list"

record PSCardTable =
  ct_covered_region :: MemRegion

definition set_covered_region :: "MemRegion \<Rightarrow> ObjectStartArray \<Rightarrow> ObjectStartArray" where
  "set_covered_region mr sa = sa\<lparr>sa_covered_region := mr\<rparr>"

definition resize_covered_region :: "MemRegion \<Rightarrow> PSCardTable \<Rightarrow> PSCardTable" where
  "resize_covered_region mr ct = ct\<lparr>ct_covered_region := mr\<rparr>"

text \<open>
  The flags and ambient values the generation reads: the VM options, the number of NUMA
  groups, whether the current thread is the VM thread, the answer of the operating system
  to a commit request, and the constant \<open>IterateBlockSize\<close> of the class declaration.
\<close>

record flags =
  UsePerfData :: bool
  UseNUMA :: bool
  numa_get_groups_num :: size_t
  MinHeapDeltaBytes :: size_t
  AlwaysPreTouch :: bool
  is_VM_thread :: bool
  os_commit_memory :: "addr \<Rightarrow> size_t \<Rightarrow> bool"
  IterateBlockSize :: size_t

section \<open>The old generation\<close>

text \<open>
  The fields of \<open>PSOldGen\<close>. The card table belongs to the heap and is reached through
  it; the two performance counters are modelled by the values they last published.
\<close>

record PSOldGen =
  virtual_space :: PSVirtualSpace
  object_space :: MutableSpace
  start_array :: ObjectStartArray
  card_table :: PSCardTable
  alloc_pretouch_next :: addr
  alloc_pretouch_stride_words :: size_t
  alloc_pretouch_limit_words :: size_t
  min_gen_size :: size_t
  max_gen_size :: size_t
  space_counters_capacity :: size_t
  gen_counters_current_size :: size_t

definition used_in_bytes :: "PSOldGen \<Rightarrow> size_t" where
  "used_in_bytes g = ms_used_in_bytes (object_space g)"

definition capacity_in_bytes :: "PSOldGen \<Rightarrow> size_t" where
  "capacity_in_bytes g = ms_capacity_in_bytes (object_space g)"

subsection \<open>post_resize\<close>

text \<open>
  \<open>post_resize\<close> is a sequence of four mutations. Each is a function of its own, so
  that the states between them can be inspected.
\<close>

definition new_memregion :: "PSOldGen \<Rightarrow> MemRegion" where
  "new_memregion g =
     \<lparr>mr_start = committed_low_addr (virtual_space g),
      mr_end = committed_high_addr (virtual_space g)\<rparr>"

definition post_resize_start_array :: "MemRegion \<Rightarrow> PSOldGen \<Rightarrow> PSOldGen" where
  "post_resize_start_array mr g = g\<lparr>start_array := set_covered_region mr (start_array g)\<rparr>"

definition post_resize_card_table :: "MemRegion \<Rightarrow> PSOldGen \<Rightarrow> PSOldGen" where
  "post_resize_card_table mr g = g\<lparr>card_table := resize_covered_region mr (card_table g)\<rparr>"

definition post_resize_object_space :: "MemRegion \<Rightarrow> PSOldGen \<Rightarrow> PSOldGen" where
  "post_resize_object_space mr g = g\<lparr>object_space := ms_initialize mr False (object_space g)\<rparr>"

definition post_resize_pretouch :: "flags \<Rightarrow> MemRegion \<Rightarrow> PSOldGen \<Rightarrow> PSOldGen" where
  "post_resize_pretouch fl mr g =
     (if is_VM_thread fl then
        (let next_pretouch = mr_end mr;
             next_pretouch = (if \<not> AlwaysPreTouch fl
                              then min next_pretouch (alloc_pretouch_next g)
                              else next_pretouch)
         in g\<lparr>alloc_pretouch_next := next_pretouch\<rparr>)
      else g)"

definition post_resize_steps :: "flags \<Rightarrow> MemRegion \<Rightarrow> (PSOldGen \<Rightarrow> PSOldGen) list" where
  "post_resize_steps fl mr =
     [post_resize_start_array mr, post_resize_card_table mr,
      post_resize_object_space mr, post_resize_pretouch fl mr]"

text \<open>The states a run of a list of mutations goes through, the first one included.\<close>

fun run_trace :: "('s \<Rightarrow> 's) list \<Rightarrow> 's \<Rightarrow> 's list" where
  "run_trace [] s = [s]"
| "run_trace (f # fs) s = s # run_trace fs (f s)"

definition post_resize_trace :: "flags \<Rightarrow> PSOldGen \<Rightarrow> PSOldGen list" where
  "post_resize_trace fl g = run_trace (post_resize_steps fl (new_memregion g)) g"

definition post_resize :: "flags \<Rightarrow> PSOldGen \<Rightarrow> PSOldGen" where
  "post_resize fl g = last (post_resize_trace fl g)"

subsection \<open>Growing and shrinking\<close>

text \<open>
  The operations below are run with the expand lock held; the lock assertions, the
  assertion \<open>bytes > 0\<close>, the logging and the mangling of the newly committed area
  under \<open>ZapUnusedHeapArea\<close> read or write nothing of the state modelled here.
  \<open>update_capacity\<close> of the space counters publishes the capacity of the object space,
  \<open>update_all\<close> of the generation counters the committed size.
\<close>

definition update_counters_after_expand :: "PSOldGen \<Rightarrow> PSOldGen" where
  "update_counters_after_expand g =
     g\<lparr>space_counters_capacity := ms_capacity_in_bytes (object_space g),
       gen_counters_current_size := committed_size (virtual_space g)\<rparr>"

definition expand_by :: "flags \<Rightarrow> size_t \<Rightarrow> PSOldGen \<Rightarrow> bool \<times> PSOldGen" where
  "expand_by fl bytes g =
     (let (result, vs) = vs_expand_by (os_commit_memory fl) bytes (virtual_space g)
      in if result then
           (let g1 = post_resize fl (g\<lparr>virtual_space := vs\<rparr>);
                g2 = (if UsePerfData fl then update_counters_after_expand g1 else g1)
            in (True, g2))
         else (False, g))"

definition expand_to_reserved :: "flags \<Rightarrow> PSOldGen \<Rightarrow> bool \<times> PSOldGen" where
  "expand_to_reserved fl g =
     (let remaining_bytes = uncommitted_size (virtual_space g)
      in if remaining_bytes > 0 then expand_by fl remaining_bytes g else (False, g))"

definition expand :: "flags \<Rightarrow> size_t \<Rightarrow> PSOldGen \<Rightarrow> bool \<times> PSOldGen" where
  "expand fl bytes g =
     (let alignment = vs_alignment (virtual_space g);
          aligned_bytes = align_up bytes alignment;
          aligned_expand_bytes = align_up (MinHeapDeltaBytes fl) alignment;
          aligned_expand_bytes =
            (if UseNUMA fl
             then max aligned_expand_bytes (alignment * numa_get_groups_num fl)
             else aligned_expand_bytes);
          aligned_bytes = (if aligned_bytes = 0 then align_down bytes alignment else aligned_bytes);
          (success, g) = (if aligned_expand_bytes > aligned_bytes
                          then expand_by fl aligned_expand_bytes g else (False, g));
          (success, g) = (if \<not> success then expand_by fl aligned_bytes g else (success, g));
          (success, g) = (if \<not> success then expand_to_reserved fl g else (success, g))
      in (success, g))"

definition shrink :: "flags \<Rightarrow> size_t \<Rightarrow> PSOldGen \<Rightarrow> PSOldGen" where
  "shrink fl bytes g =
     (let size = align_down bytes (vs_alignment (virtual_space g))
      in if size > 0
         then post_resize fl (g\<lparr>virtual_space := vs_shrink_by bytes (virtual_space g)\<rparr>)
         else g)"

text \<open>The target size \<open>new_size\<close> that \<open>resize\<close> computes before it compares.\<close>

definition resize_new_size :: "PSOldGen \<Rightarrow> size_t \<Rightarrow> size_t" where
  "resize_new_size g desired_free_space =
     (let alignment = vs_alignment (virtual_space g);
          new_size = used_in_bytes g + desired_free_space;
          new_size = (if new_size < used_in_bytes g then max_gen_size g else new_size);
          new_size = clamp new_size (min_gen_size g) (max_gen_size g)
      in align_up new_size alignment)"

definition resize :: "flags \<Rightarrow> size_t \<Rightarrow> PSOldGen \<Rightarrow> PSOldGen" where
  "resize fl desired_free_space g =
     (let new_size = resize_new_size g desired_free_space;
          current_size = capacity_in_bytes g
      in if new_size = current_size then g
         else if new_size > current_size
           then snd (expand fl (new_size - current_size) g)
         else shrink fl (current_size - new_size) g)"

subsection \<open>Pretouch during allocation\<close>

text \<open>
  \<open>initialize_allocation_pretouch\<close>: the stride is the page size in words (the page size
  already chosen between the small and the large one), the limit is the stride times the
  number of worker threads.
\<close>

definition initialize_allocation_pretouch :: "size_t \<Rightarrow> size_t \<Rightarrow> PSOldGen \<Rightarrow> PSOldGen" where
  "initialize_allocation_pretouch page_size ParallelGCThreads g =
     (let stride_words = page_size div HeapWordSize
      in g\<lparr>alloc_pretouch_stride_words := stride_words,
           alloc_pretouch_limit_words := stride_words * ParallelGCThreads\<rparr>)"

text \<open>
  \<open>Atomic::cmpxchg\<close> on the cursor: the value the cursor holds afterwards. The call
  gives back the value it found, which the caller compares with \<open>old_touch\<close>; only the
  write of zero into the claimed page depends on that, and it changes no value.
\<close>

definition cmpxchg :: "addr \<Rightarrow> addr \<Rightarrow> addr \<Rightarrow> addr" where
  "cmpxchg dest compare_value exchange_value =
     (if dest = compare_value then exchange_value else dest)"

text \<open>
  The end of \<open>pretouch_during_allocation\<close>, from the computation of \<open>next_touch\<close> on:
  the compare-and-swap it attempts, as the pair of the expected and the new value.
\<close>

definition pretouch_advance :: "size_t \<Rightarrow> addr \<Rightarrow> addr \<Rightarrow> addr \<Rightarrow> (addr \<times> addr) option" where
  "pretouch_advance stride_words old_touch alloc_end touch =
     (let next_touch = ptr_add touch stride_words;
          next_touch = (if pointer_delta alloc_end touch < stride_words
                        then alloc_end else next_touch)
      in Some (old_touch, next_touch))"

text \<open>
  What a call decides from the two values it loaded, \<open>touch\<close> and \<open>alloc_end\<close>:
  \<open>None\<close> when it returns without a compare-and-swap, else the compare-and-swap it
  attempts.
\<close>

definition pretouch_cas ::
  "size_t \<Rightarrow> size_t \<Rightarrow> addr \<Rightarrow> addr \<Rightarrow> addr \<Rightarrow> size_t \<Rightarrow> (addr \<times> addr) option" where
  "pretouch_cas stride_words limit_words touch alloc_end alloc alloc_size =
     (if stride_words \<le> alloc_size then None
      else if touch \<ge> alloc_end then None
      else
        (let old_touch = touch;
             stride_align = stride_words * HeapWordSize;
             new_alloc = ptr_add alloc alloc_size
         in if new_alloc > touch then
              (if new_alloc > align_down (ptr_sub alloc_end 1) stride_align
               then Some (old_touch, alloc_end)
               else pretouch_advance stride_words old_touch alloc_end
                      (align_up new_alloc stride_align))
            else if pointer_delta touch new_alloc > limit_words then None
            else pretouch_advance stride_words old_touch alloc_end touch))"

text \<open>
  The part of a call after its two loads, applied to the generation as it is when the
  compare-and-swap runs. Between the loads and the compare-and-swap other threads may
  have moved the cursor.
\<close>

definition pretouch_after_loads :: "addr \<Rightarrow> addr \<Rightarrow> addr \<Rightarrow> size_t \<Rightarrow> PSOldGen \<Rightarrow> PSOldGen" where
  "pretouch_after_loads touch alloc_end alloc alloc_size g =
     (case pretouch_cas (alloc_pretouch_stride_words g) (alloc_pretouch_limit_words g)
             touch alloc_end alloc alloc_size of
        None \<Rightarrow> g
      | Some (old_touch, next_touch) \<Rightarrow>
          g\<lparr>alloc_pretouch_next := cmpxchg (alloc_pretouch_next g) old_touch next_touch\<rparr>)"

definition pretouch_during_allocation :: "addr \<Rightarrow> size_t \<Rightarrow> PSOldGen \<Rightarrow> PSOldGen" where
  "pretouch_during_allocation alloc alloc_size g =
     pretouch_after_loads (alloc_pretouch_next g) (ms_end (object_space g)) alloc alloc_size g"

text \<open>A sequence of calls, each one complete before the next one starts.\<close>

fun pretouch_calls :: "(addr \<times> size_t) list \<Rightarrow> PSOldGen \<Rightarrow> PSOldGen" where
  "pretouch_calls [] g = g"
| "pretouch_calls ((alloc, alloc_size) # calls) g =
     pretouch_calls calls (pretouch_during_allocation alloc alloc_size g)"

text \<open>
  A run of calls that interleave: every call is the triple of the cursor value it loaded
  (any earlier value, or any value at all), its \<open>alloc\<close> and its \<open>alloc_size\<close>; the
  compare-and-swaps take place in the order of the list. The end of the space does not
  move while only allocations run.
\<close>

fun pretouch_run :: "(addr \<times> addr \<times> size_t) list \<Rightarrow> PSOldGen \<Rightarrow> PSOldGen" where
  "pretouch_run [] g = g"
| "pretouch_run ((touch, alloc, alloc_size) # calls) g =
     pretouch_run calls
       (pretouch_after_loads touch (ms_end (object_space g)) alloc alloc_size g)"

subsection \<open>Iteration by blocks\<close>

text \<open>
  Modelled from the spec: the two queries of the object-start index.
  \<open>object_starts_in_range\<close> tells whether an object starts in \<open>[begin, end)\<close>;
  \<open>object_start\<close> gives the start of the object that contains or precedes an address,
  the last recorded start at or below it.
\<close>

definition object_starts_in_range :: "ObjectStartArray \<Rightarrow> addr \<Rightarrow> addr \<Rightarrow> bool" where
  "object_starts_in_range sa begin_addr end_addr =
     list_ex (\<lambda>s. begin_addr \<le> s \<and> s < end_addr) (sa_starts sa)"

definition object_start :: "ObjectStartArray \<Rightarrow> addr \<Rightarrow> addr" where
  "object_start sa a =
     last (mr_start (sa_covered_region sa) # filter (\<lambda>s. s \<le> a) (sa_starts sa))"

definition num_iterable_blocks :: "flags \<Rightarrow> PSOldGen \<Rightarrow> size_t" where
  "num_iterable_blocks fl g =
     (used_in_bytes g + IterateBlockSize fl - 1) div IterateBlockSize fl"

text \<open>
  The loop over the objects of a block. The heap is read through \<open>heap\<close>, which gives
  the size in words that the object at an address reports. The result is the list of the
  objects handed to the closure, in order; a loop that never ends has no result.
\<close>

partial_function (option) iterate_objects ::
  "(addr \<Rightarrow> size_t) \<Rightarrow> addr \<Rightarrow> addr \<Rightarrow> addr list option" where
  "iterate_objects heap p end_addr =
     (if p < end_addr
      then Option.bind (iterate_objects heap (ptr_add p (heap p)) end_addr)
             (\<lambda>visited. Some (p # visited))
      else Some [])"

declare iterate_objects.simps [code]

definition block_begin :: "flags \<Rightarrow> PSOldGen \<Rightarrow> size_t \<Rightarrow> addr" where
  "block_begin fl g block_index =
     ptr_add (ms_bottom (object_space g)) (block_index * (IterateBlockSize fl div HeapWordSize))"

definition block_end :: "flags \<Rightarrow> PSOldGen \<Rightarrow> size_t \<Rightarrow> addr" where
  "block_end fl g block_index =
     min (ms_top (object_space g))
         (ptr_add (block_begin fl g block_index) (IterateBlockSize fl div HeapWordSize))"

definition object_iterate_block ::
  "flags \<Rightarrow> (addr \<Rightarrow> size_t) \<Rightarrow> PSOldGen \<Rightarrow> size_t \<Rightarrow> addr list option" where
  "object_iterate_block fl heap g block_index =
     (let begin_addr = block_begin fl g block_index;
          end_addr = block_end fl g block_index
      in if \<not> object_starts_in_range (start_array g) begin_addr end_addr then Some []
         else
           (let start = object_start (start_array g) begin_addr;
                start = (if start < begin_addr then ptr_add start (heap start) else start)
            in iterate_objects heap start end_addr))"

text \<open>
  The heap between \<open>p\<close> and \<open>top\<close> holds exactly the objects that start at the addresses
  of the list: each object reports a size that leads to the start of the next one, the
  last one ends at \<open>top\<close>.
\<close>

fun objects_from :: "(addr \<Rightarrow> size_t) \<Rightarrow> addr \<Rightarrow> addr list \<Rightarrow> addr \<Rightarrow> bool" where
  "objects_from heap p [] top_addr = (p = top_addr)"
| "objects_from heap p (s # ss) top_addr =
     (s = p \<and> p < ptr_add p (heap p) \<and> ptr_add p (heap p) \<le> top_addr \<and>
      objects_from heap (ptr_add p (heap p)) ss top_addr)"

text \<open>
  A scan of the whole generation: \<open>object_iterate_block\<close> is called for every block
  index below \<open>num_iterable_blocks\<close>, here one block after the other; the result is
  the list of all the objects handed to the closure.
\<close>

fun iterate_blocks ::
  "flags \<Rightarrow> (addr \<Rightarrow> size_t) \<Rightarrow> PSOldGen \<Rightarrow> nat list \<Rightarrow> addr list option" where
  "iterate_blocks fl heap g [] = Some []"
| "iterate_blocks fl heap g (i # is) =
     Option.bind (object_iterate_block fl heap g (of_nat i))
       (\<lambda>visited. Option.bind (iterate_blocks fl heap g is)
          (\<lambda>rest. Some (visited @ rest)))"

definition object_iterate_all :: "flags \<Rightarrow> (addr \<Rightarrow> size_t) \<Rightarrow> PSOldGen \<Rightarrow> addr list option" where
  "object_iterate_all fl heap g =
     iterate_blocks fl heap g [0..<unat (num_iterable_blocks fl g)]"

section \<open>A generation to compute with\<close>

text \<open>
  The generation of the concrete scenarios: 64 MiB reserved at 1 GiB, alignment 1 MiB,
  at least 8 MiB, at most 64 MiB, pages of 4096 bytes and four worker threads.
\<close>

definition scenario_flags :: "bool \<Rightarrow> bool \<Rightarrow> flags" where
  "scenario_flags vm_thread commit_ok =
     \<lparr>UsePerfData = True, UseNUMA = False, numa_get_groups_num = 1,
      MinHeapDeltaBytes = 0x20000, AlwaysPreTouch = False,
      is_VM_thread = vm_thread, os_commit_memory = (\<lambda>base bytes. commit_ok),
      IterateBlockSize = 0x100000\<rparr>"

definition scenario_gen :: "size_t \<Rightarrow> size_t \<Rightarrow> addr \<Rightarrow> PSOldGen" where
  "scenario_gen committed used cursor =
     \<lparr>virtual_space =
        \<lparr>vs_alignment = 0x100000, reserved_low_addr = 0x40000000,
         reserved_high_addr = 0x44000000, committed_low_addr = 0x40000000,
         committed_high_addr = 0x40000000 + committed\<rparr>,
      object_space =
        \<lparr>ms_bottom = 0x40000000, ms_top = 0x40000000 + used,
         ms_end = 0x40000000 + committed\<rparr>,
      start_array =
        \<lparr>sa_covered_region = \<lparr>mr_start = 0x40000000, mr_end = 0x40000000 + committed\<rparr>,
         sa_starts = []\<rparr>,
      card_table =
        \<lparr>ct_covered_region = \<lparr>mr_start = 0x40000000, mr_end = 0x40000000 + committed\<rparr>\<rparr>,
      alloc_pretouch_next = cursor,
      alloc_pretouch_stride_words = 512,
      alloc_pretouch_limit_words = 2048,
      min_gen_size = 0x800000,
      max_gen_size = 0x4000000,
      space_counters_capacity = committed,
      gen_counters_current_size = committed\<rparr>"

text \<open>
  The same generation with 16 MiB committed and 10 MiB used, right after its virtual space
  has committed 14 MiB more and before \<open>post_resize\<close> has run.
\<close>

definition scenario_after_commit :: PSOldGen where
  "scenario_after_commit =
     (scenario_gen 0x1000000 0xA00000 0x40000000)
       \<lparr>virtual_space :=
          snd (vs_expand_by (\<lambda>base bytes. True) 0xE00000
                 (virtual_space (scenario_gen 0x1000000 0xA00000 0x40000000)))\<rparr>"

text \<open>
  The same generation with 16 MiB committed and 10 MiB used, and with a maximum of
  63.5 MiB, below the 64 MiB reserved and not a multiple of the alignment.
\<close>

definition scenario_max_below_reserved :: PSOldGen where
  "scenario_max_below_reserved =
     (scenario_gen 0x1000000 0xA00000 0x40000000)\<lparr>max_gen_size := 0x3F80000\<rparr>"

text \<open>
  The same generation populated with three objects of 0x18000, 0x10000 and 0x20000 words:
  the second one crosses the end of the first block of 1 MiB, the third one the end of
  the second block, and no object starts in the third block.
\<close>

definition scenario_heap :: "addr \<Rightarrow> size_t" where
  "scenario_heap p =
     (if p = 0x40000000 then 0x18000
      else if p = 0x400C0000 then 0x10000
      else if p = 0x40140000 then 0x20000
      else 0)"

definition scenario_populated :: PSOldGen where
  "scenario_populated =
     (scenario_gen 0x1000000 0x240000 0x40000000)
       \<lparr>start_array :=
          \<lparr>sa_covered_region = \<lparr>mr_start = 0x40000000, mr_end = 0x41000000\<rparr>,
           sa_starts = [0x40000000, 0x400C0000, 0x40140000]\<rparr>\<rparr>"

section \<open>Predicates on generations\<close>

text \<open>
  The object space shows a region; the object-start index and the card table both declare
  a region as covered.
\<close>

definition published :: "MemRegion \<Rightarrow> PSOldGen \<Rightarrow> bool" where
  "published mr g \<longleftrightarrow>
     ms_bottom (object_space g) = mr_start mr \<and> ms_end (object_space g) = mr_end mr"

definition covered :: "MemRegion \<Rightarrow> PSOldGen \<Rightarrow> bool" where
  "covered mr g \<longleftrightarrow>
     sa_covered_region (start_array g) = mr \<and> ct_covered_region (card_table g) = mr"

text \<open>
  The sizes of a generation are consistent: the committed and the reserved size are
  multiples of the alignment, the committed region lies within the reserved one and is
  the region the object space shows, and the bounds satisfy
  \<open>min_gen_size \<le> committed size\<close> and \<open>min_gen_size \<le> max_gen_size\<close>, with
  \<open>max_gen_size\<close> within the reserved size. Whether the reserved size is in turn
  within \<open>max_gen_size\<close>, as \<open>resize\<close> asserts, is left open here.
\<close>

definition sizes_consistent :: "PSOldGen \<Rightarrow> bool" where
  "sizes_consistent g \<longleftrightarrow>
     is_aligned (committed_size (virtual_space g)) (vs_alignment (virtual_space g)) \<and>
     is_aligned (reserved_size (virtual_space g)) (vs_alignment (virtual_space g)) \<and>
     committed_size (virtual_space g) \<le> reserved_size (virtual_space g) \<and>
     ms_bottom (object_space g) = committed_low_addr (virtual_space g) \<and>
     ms_end (object_space g) = committed_high_addr (virtual_space g) \<and>
     min_gen_size g \<le> max_gen_size g \<and>
     max_gen_size g \<le> reserved_size (virtual_space g) \<and>
     min_gen_size g \<le> committed_size (virtual_space g)"

text \<open>
  The same with the alignment written as the power of two it is, at least the size of a
  heap word, and with the two bounds named, so that a statement can say that an operation
  leaves them alone.
\<close>

definition sizes_inv :: "nat \<Rightarrow> size_t \<Rightarrow> size_t \<Rightarrow> PSOldGen \<Rightarrow> bool" where
  "sizes_inv k mn mx g \<longleftrightarrow>
     sizes_consistent g \<and> vs_alignment (virtual_space g) = 2 ^ k \<and> 3 \<le> k \<and> k < 64 \<and>
     min_gen_size g = mn \<and> max_gen_size g = mx"

section \<open>Properties\<close>

lemmas pretouch_defs =
  pretouch_during_allocation_def pretouch_after_loads_def pretouch_cas_def
  pretouch_advance_def cmpxchg_def ptr_add_def ptr_sub_def pointer_delta_def
  HeapWordSize_def

subsection \<open>Alignment and word arithmetic\<close>

text \<open>
  For an alignment \<open>2 ^ k\<close> a value is aligned when its \<open>k\<close> low bits are zero, that
  is when \<open>2 ^ k\<close> divides it.
\<close>

lemma align_down_pow2: "align_down x (2 ^ k) = x - take_bit k x"
proof -
  have "x AND NOT (mask k) = push_bit k (drop_bit k x)"
    by (rule bit_eqI) (auto simp: bit_simps)
  moreover have "push_bit k (drop_bit k x) + take_bit k x = x"
    by (rule bits_ident)
  ultimately have "x AND NOT (mask k) = x - take_bit k x"
    by (metis add_diff_cancel_right')
  then show ?thesis
    by (simp add: align_down_def mask_eq_decr_exp)
qed

lemma is_aligned_pow2: "is_aligned x (2 ^ k) \<longleftrightarrow> take_bit k x = 0"
  by (simp add: is_aligned_def mask_eq_decr_exp take_bit_eq_mask)

lemma unat_take_bit_64: "unat (take_bit k (x :: 64 word)) = unat x mod 2 ^ k"
  by (metis unsigned_take_bit_eq take_bit_eq_mod)

lemma take_bit_le_64: "take_bit k (x :: 64 word) \<le> x"
  by (simp add: word_le_nat_alt unat_take_bit_64)

lemma unat_align_down: "unat (align_down x (2 ^ k)) = unat x - unat x mod 2 ^ k"
  by (simp add: align_down_pow2 unat_sub take_bit_le_64 unat_take_bit_64)

lemma align_down_le: "align_down x a \<le> x"
  by (simp add: align_down_def word_and_le2)

lemma aligned_unat: "take_bit k (x::64 word) = 0 \<longleftrightarrow> 2 ^ k dvd unat x"
  by (metis take_bit_eq_0_iff unat_eq_zero unsigned_take_bit_eq)

lemma aligned_align_down: "take_bit k (align_down x (2 ^ k)) = 0"
  by (simp add: aligned_unat unat_align_down)

lemma aligned_align_up: "take_bit k (align_up x (2 ^ k)) = 0"
  by (simp add: align_up_def aligned_align_down)

lemma align_down_aligned: "take_bit k x = 0 \<Longrightarrow> align_down x (2 ^ k) = x"
  by (simp add: align_down_pow2)

lemma aligned_add: "take_bit k (x::64 word) = 0 \<Longrightarrow> take_bit k y = 0 \<Longrightarrow> take_bit k (x + y) = 0"
  by (simp add: take_bit_eq_0_iff)

lemma aligned_diff: "take_bit k (x::64 word) = 0 \<Longrightarrow> take_bit k y = 0 \<Longrightarrow> take_bit k (x - y) = 0"
  by (simp add: take_bit_eq_0_iff)

lemma aligned_mult: "take_bit k ((2::64 word) ^ k * n) = 0"
  by (metis take_bit_eq_0_iff dvd_triv_left)

lemma unat_pow2_64:
  assumes "k < 64"
  shows "unat ((2::64 word) ^ k) = 2 ^ k"
proof -
  have "(2::nat) ^ k < 2 ^ 64" using assms by (intro power_strict_increasing) simp_all
  then show ?thesis by (intro of_nat_inverse) simp_all
qed

lemma nat_aligned_bound:
  assumes "2 ^ k dvd (m::nat)" "m < 2 ^ n" "k \<le> n"
  shows "m + 2 ^ k \<le> 2 ^ n"
proof -
  from assms(1) obtain q where q: "m = 2 ^ k * q" by (auto simp: dvd_def)
  have e: "(2::nat) ^ n = 2 ^ k * 2 ^ (n - k)"
    using assms(3) by (simp flip: power_add)
  have "q < 2 ^ (n - k)" using q e assms(2) by simp
  then have "Suc q \<le> 2 ^ (n - k)" by simp
  then have "2 ^ k * Suc q \<le> 2 ^ k * 2 ^ (n - k)" by (rule mult_le_mono2)
  then show ?thesis using q e by simp
qed

lemma aligned_bound:
  assumes "take_bit k (m::64 word) = 0" "k < 64"
  shows "unat m + 2 ^ k \<le> 2 ^ 64"
proof -
  have "unat m < 2 ^ 64" using unsigned_less [of m] by simp
  then show ?thesis
    using assms by (intro nat_aligned_bound) (simp_all add: aligned_unat)
qed

lemma unat_align_up:
  assumes "unat x + 2 ^ k \<le> 2 ^ 64" "k < 64"
  shows "unat (align_up x (2 ^ k)) = (unat x + (2 ^ k - 1)) div 2 ^ k * 2 ^ k"
proof -
  have "unat ((2::64 word) ^ k - 1) = 2 ^ k - 1"
    using assms(2) by (simp add: unat_sub word_le_nat_alt unat_pow2_64)
  then have "unat (x + (2 ^ k - 1)) = unat x + (2 ^ k - 1)"
    using assms(1) by (simp add: unat_add_lem [THEN iffD1])
  then show ?thesis
    by (simp add: align_up_def unat_align_down minus_mod_eq_div_mult)
qed

lemma nat_round_up_ge:
  assumes "0 < (a::nat)"
  shows "x \<le> (x + (a - 1)) div a * a"
proof -
  obtain b where b: "a = Suc b" using assms by (cases a) auto
  have "(x + b) mod Suc b \<le> b"
    using mod_less_divisor [of "Suc b" "x + b"] by simp
  then have "x \<le> (x + b) - (x + b) mod Suc b" by arith
  then have "x \<le> (x + b) div Suc b * Suc b"
    by (simp only: minus_mod_eq_div_mult)
  then show ?thesis by (simp add: b)
qed

lemma nat_round_up_le:
  assumes "0 < (a::nat)" "a dvd m" "x \<le> m"
  shows "(x + (a - 1)) div a * a \<le> m"
proof -
  obtain b where b: "a = Suc b" using assms(1) by (cases a) auto
  from assms(2) obtain q where q: "m = Suc b * q" by (auto simp: dvd_def b)
  have "(x + b) div Suc b \<le> (b + Suc b * q) div Suc b"
    using assms(3) q by (intro div_le_mono) simp
  also have "\<dots> = q" by (simp only: div_mult_self2 [OF Suc_not_Zero]) simp
  finally have "(x + b) div Suc b * Suc b \<le> q * Suc b" by (rule mult_le_mono1)
  then have "(x + b) div Suc b * Suc b \<le> m" by (simp only: q mult.commute)
  then show ?thesis by (simp add: b)
qed

lemma align_up_bounds:
  assumes "x \<le> m" "take_bit k m = 0" "k < 64"
  shows "x \<le> align_up x (2 ^ k) \<and> align_up x (2 ^ k) \<le> m"
proof -
  have xm: "unat x \<le> unat m" using assms(1) by (simp add: word_le_nat_alt)
  have b: "unat x + 2 ^ k \<le> 2 ^ 64" using aligned_bound [OF assms(2,3)] xm by simp
  have u: "unat (align_up x (2 ^ k)) = (unat x + (2 ^ k - 1)) div 2 ^ k * 2 ^ k"
    by (rule unat_align_up [OF b assms(3)])
  have "(unat x + (2 ^ k - 1)) div 2 ^ k * 2 ^ k \<le> unat m"
    using assms(2) xm by (intro nat_round_up_le) (simp_all add: aligned_unat)
  moreover have "unat x \<le> (unat x + (2 ^ k - 1)) div 2 ^ k * 2 ^ k"
    by (intro nat_round_up_ge) simp
  ultimately show ?thesis using u by (simp add: word_le_nat_alt)
qed

lemma align_up_aligned:
  assumes "take_bit k x = 0" "k < 64"
  shows "align_up x (2 ^ k) = x"
  using align_up_bounds [OF order_refl assms] by (simp add: order_antisym)

lemma word_add_le_sub:
  fixes t e w :: "64 word"
  assumes "t \<le> e" "w \<le> e - t"
  shows "t \<le> t + w \<and> t + w \<le> e"
  using assms by unat_arith

lemma stride_bytes: "j \<le> 60 \<Longrightarrow> (2::64 word) ^ j * HeapWordSize = 2 ^ (j + 3)"
  by (simp add: HeapWordSize_def power_add)

lemma stride_le_div:
  fixes x :: "64 word"
  assumes "j \<le> 60" "(2::64 word) ^ j \<le> x div HeapWordSize"
  shows "2 ^ (j + 3) \<le> x"
proof -
  have "unat ((2::64 word) ^ j) \<le> unat (x div HeapWordSize)"
    using assms(2) by (simp add: word_le_nat_alt)
  then have "2 ^ j \<le> unat x div 8"
    using assms(1) by (simp add: unat_pow2_64 unat_div HeapWordSize_def)
  then have "2 ^ j * 8 \<le> unat x" by simp
  then have "2 ^ (j + 3) \<le> unat x" by (simp add: power_add)
  then show ?thesis using assms(1) by (simp add: word_le_nat_alt unat_pow2_64)
qed

subsection \<open>The order of the mutations of post_resize\<close>

lemmas post_resize_defs =
  post_resize_def post_resize_trace_def post_resize_steps_def post_resize_start_array_def
  post_resize_card_table_def post_resize_object_space_def post_resize_pretouch_def
  set_covered_region_def resize_covered_region_def ms_initialize_def

lemmas scenario_defs = scenario_flags_def scenario_gen_def

lemma virtual_space_post_resize: "virtual_space (post_resize fl g) = virtual_space g"
  by (simp add: post_resize_defs Let_def)

text \<open>
  C1. \<open>post_resize\<close> goes through five states. In each of them the object space is
  either still the one from before the call, or it shows the new region and both the
  object-start index and the card table already declare the new region as covered. The
  object-start index is set first, the card table second, the object space third; the
  fourth mutation, of the pretouch cursor, leaves the object space as published.
\<close>

theorem post_resize_publishes_end_last:
  "(\<forall>t \<in> set (post_resize_trace fl g).
      object_space t = object_space g \<or>
      (published (new_memregion g) t \<and> covered (new_memregion g) t)) \<and>
   length (post_resize_trace fl g) = 5 \<and>
   post_resize_trace fl g ! 0 = g \<and>
   sa_covered_region (start_array (post_resize_trace fl g ! 1)) = new_memregion g \<and>
   card_table (post_resize_trace fl g ! 1) = card_table g \<and>
   object_space (post_resize_trace fl g ! 1) = object_space g \<and>
   covered (new_memregion g) (post_resize_trace fl g ! 2) \<and>
   object_space (post_resize_trace fl g ! 2) = object_space g \<and>
   published (new_memregion g) (post_resize_trace fl g ! 3) \<and>
   covered (new_memregion g) (post_resize_trace fl g ! 3) \<and>
   post_resize_trace fl g ! 4 = post_resize fl g \<and>
   object_space (post_resize fl g) = object_space (post_resize_trace fl g ! 3) \<and>
   published (new_memregion g) (post_resize fl g) \<and>
   covered (new_memregion g) (post_resize fl g)"
  by (simp add: post_resize_defs published_def covered_def Let_def)

theorem post_resize_publishes_end_last_witness:
  "post_resize (scenario_flags True True) scenario_after_commit
     \<in> set (post_resize_trace (scenario_flags True True) scenario_after_commit) \<and>
   ms_end (object_space scenario_after_commit) = 0x41000000 \<and>
   new_memregion scenario_after_commit = \<lparr>mr_start = 0x40000000, mr_end = 0x41E00000\<rparr> \<and>
   published \<lparr>mr_start = 0x40000000, mr_end = 0x41E00000\<rparr>
     (post_resize (scenario_flags True True) scenario_after_commit) \<and>
   covered \<lparr>mr_start = 0x40000000, mr_end = 0x41E00000\<rparr>
     (post_resize (scenario_flags True True) scenario_after_commit)"
  using post_resize_publishes_end_last [of "scenario_flags True True" scenario_after_commit]
  by (simp add: post_resize_defs scenario_defs scenario_after_commit_def new_memregion_def
      covered_def published_def vs_expand_by_def uncommitted_size_def reserved_size_def
      committed_size_def)

subsection \<open>The target size of resize\<close>

text \<open>
  C3. When the sum of the used bytes and the desired free bytes does not fit the machine
  word, the wrapped sum is below the used bytes, so \<open>resize\<close> takes \<open>max_gen_size\<close>
  for \<open>new_size\<close>; clamping leaves it at \<open>max_gen_size\<close>, and the target is its
  alignment upwards.
\<close>

theorem resize_overflow_resolves_to_max:
  assumes "2 ^ 64 \<le> unat (used_in_bytes g) + unat desired_free_space"
  shows "used_in_bytes g + desired_free_space < used_in_bytes g \<and>
         resize_new_size g desired_free_space =
           align_up (clamp (max_gen_size g) (min_gen_size g) (max_gen_size g))
             (vs_alignment (virtual_space g)) \<and>
         clamp (max_gen_size g) (min_gen_size g) (max_gen_size g) = max_gen_size g"
proof -
  have "\<not> used_in_bytes g \<le> used_in_bytes g + desired_free_space"
    using assms by (simp add: no_olen_add_nat)
  then have lt: "used_in_bytes g + desired_free_space < used_in_bytes g" by simp
  then show ?thesis by (simp add: resize_new_size_def clamp_def Let_def)
qed

theorem resize_overflow_resolves_to_max_witness:
  "2 ^ 64 \<le> unat (used_in_bytes (scenario_gen 0x1000000 0xA00000 0x40000000))
             + unat (0xFFFFFFFFFFFFFFFF :: size_t) \<and>
   resize_new_size (scenario_gen 0x1000000 0xA00000 0x40000000) 0xFFFFFFFFFFFFFFFF = 0x4000000"
proof -
  have h: "2 ^ 64 \<le> unat (used_in_bytes (scenario_gen 0x1000000 0xA00000 0x40000000))
             + unat (0xFFFFFFFFFFFFFFFF :: size_t)"
    by (simp add: scenario_defs used_in_bytes_def ms_used_in_bytes_def pointer_delta_def
        HeapWordSize_def)
  show ?thesis
    using h resize_overflow_resolves_to_max [OF h]
    by (simp add: scenario_defs clamp_def align_up_def align_down_def)
qed

subsection \<open>Growing\<close>

text \<open>
  C10. When the virtual space cannot commit, because less than \<open>bytes\<close> is left or
  because the operating system refuses, \<open>expand_by\<close> returns false and the generation
  is the one it was: committed region, covered regions, object space, pretouch cursor and
  counters.
\<close>

theorem expand_by_commit_failure:
  assumes "uncommitted_size (virtual_space g) < bytes \<or>
           \<not> os_commit_memory fl (committed_high_addr (virtual_space g)) bytes"
  shows "expand_by fl bytes g = (False, g)"
  using assms by (auto simp: expand_by_def vs_expand_by_def)

theorem expand_by_commit_failure_witness:
  "\<not> os_commit_memory (scenario_flags True False)
       (committed_high_addr (virtual_space (scenario_gen 0x1000000 0xA00000 0x40000000))) 0x100000 \<and>
   expand_by (scenario_flags True False) 0x100000 (scenario_gen 0x1000000 0xA00000 0x40000000)
     = (False, scenario_gen 0x1000000 0xA00000 0x40000000)"
proof -
  have h: "\<not> os_commit_memory (scenario_flags True False)
       (committed_high_addr (virtual_space (scenario_gen 0x1000000 0xA00000 0x40000000))) 0x100000"
    by (simp add: scenario_defs)
  show ?thesis
    using h expand_by_commit_failure [OF disjI2, OF h] by simp
qed

text \<open>
  C5, as the code has it. With nothing left to commit \<open>expand_to_reserved\<close> changes
  nothing and returns false. Otherwise it is \<open>expand_by\<close> of exactly the uncommitted
  size, and when that succeeds the committed size has grown by exactly that amount.
\<close>

theorem expand_to_reserved_result:
  "(uncommitted_size (virtual_space g) = 0 \<longrightarrow> expand_to_reserved fl g = (False, g)) \<and>
   (uncommitted_size (virtual_space g) \<noteq> 0 \<longrightarrow>
      expand_to_reserved fl g = expand_by fl (uncommitted_size (virtual_space g)) g) \<and>
   (fst (expand_to_reserved fl g) \<longrightarrow>
      committed_size (virtual_space (snd (expand_to_reserved fl g)))
        = committed_size (virtual_space g) + uncommitted_size (virtual_space g))"
  by (auto simp: expand_to_reserved_def expand_by_def vs_expand_by_def Let_def word_gt_0
      virtual_space_post_resize update_counters_after_expand_def committed_size_def
      split: if_splits)

theorem expand_to_reserved_result_witness:
  "uncommitted_size (virtual_space (scenario_gen 0x1000000 0xA00000 0x40000000)) = 0x3000000 \<and>
   fst (expand_to_reserved (scenario_flags True True) (scenario_gen 0x1000000 0xA00000 0x40000000)) \<and>
   committed_size (virtual_space (snd (expand_to_reserved (scenario_flags True True)
     (scenario_gen 0x1000000 0xA00000 0x40000000)))) = 0x4000000"
proof -
  have u: "uncommitted_size (virtual_space (scenario_gen 0x1000000 0xA00000 0x40000000)) = 0x3000000"
    by (simp add: scenario_defs uncommitted_size_def reserved_size_def committed_size_def)
  have f: "fst (expand_to_reserved (scenario_flags True True) (scenario_gen 0x1000000 0xA00000 0x40000000))"
    by (simp add: expand_to_reserved_def expand_by_def vs_expand_by_def u)
       (simp add: scenario_defs)
  have c: "committed_size (virtual_space (scenario_gen 0x1000000 0xA00000 0x40000000)) = 0x1000000"
    by (simp add: scenario_defs committed_size_def)
  from expand_to_reserved_result
      [of "scenario_gen 0x1000000 0xA00000 0x40000000" "scenario_flags True True",
       THEN conjunct2, THEN conjunct2, rule_format, OF f]
  have "committed_size (virtual_space (snd (expand_to_reserved (scenario_flags True True)
     (scenario_gen 0x1000000 0xA00000 0x40000000)))) = 0x1000000 + 0x3000000"
    by (simp only: u c)
  then show ?thesis using u f by simp
qed

text \<open>
  The claim C5 itself fails at the reserved ceiling: with all 64 MiB committed the call
  returns false.
\<close>

theorem expand_to_reserved_at_ceiling_returns_false:
  "uncommitted_size (virtual_space (scenario_gen 0x4000000 0xA00000 0x40000000)) = 0 \<and>
   \<not> fst (expand_to_reserved (scenario_flags True True)
            (scenario_gen 0x4000000 0xA00000 0x40000000))"
  by (simp add: expand_to_reserved_def uncommitted_size_def reserved_size_def committed_size_def
      scenario_defs)

subsection \<open>Shrinking\<close>

text \<open>
  C4 at a request that is not a multiple of the alignment: 1 MiB and one byte, with a
  1 MiB alignment, rounds down to 1 MiB, which is not zero; \<open>shrink\<close> then hands the
  request itself to \<open>shrink_by\<close>, and the committed size drops by 1 MiB and one byte.
\<close>

theorem shrink_uncommits_raw_bytes:
  "align_down 0x100001 (vs_alignment (virtual_space (scenario_gen 0x1000000 0xA00000 0x40000000)))
     = 0x100000 \<and>
   committed_size (virtual_space
     (shrink (scenario_flags True True) 0x100001 (scenario_gen 0x1000000 0xA00000 0x40000000)))
     = 0x1000000 - 0x100001"
  by (simp add: shrink_def vs_shrink_by_def virtual_space_post_resize committed_size_def
      align_down_def scenario_defs)

subsection \<open>The pretouch cursor\<close>

text \<open>
  What a call may install. The stride is a power of two, as the page size is, and the end
  of the space is a \<open>HeapWord*\<close>, aligned to the heap word. The two assertions of the
  call, that \<open>touch\<close> is aligned to the stride and not above the start of the last page,
  are checked in debug builds only and are not part of the model.
\<close>

lemma pretouch_advance_bounds:
  assumes "touch \<le> alloc_end" "j \<le> 60"
    and "pretouch_advance (2 ^ j) old_touch alloc_end touch = Some (ot, nt)"
  shows "ot = old_touch \<and> touch \<le> nt \<and> nt \<le> alloc_end"
proof (cases "pointer_delta alloc_end touch < 2 ^ j")
  case True
  then show ?thesis using assms by (simp add: pretouch_advance_def)
next
  case False
  then have "(2::64 word) ^ j \<le> (alloc_end - touch) div HeapWordSize"
    by (simp add: pointer_delta_def)
  then have "2 ^ (j + 3) \<le> alloc_end - touch"
    by (rule stride_le_div [OF assms(2)])
  then have "touch \<le> touch + 2 ^ (j + 3) \<and> touch + 2 ^ (j + 3) \<le> alloc_end"
    by (rule word_add_le_sub [OF assms(1)])
  then show ?thesis
    using assms False by (simp add: pretouch_advance_def ptr_add_def stride_bytes)
qed

lemma pretouch_advance_strict:
  assumes "touch < alloc_end" "j \<le> 60"
    and "pretouch_advance (2 ^ j) old_touch alloc_end touch = Some (ot, nt)"
  shows "touch < nt"
proof (cases "pointer_delta alloc_end touch < 2 ^ j")
  case True
  then show ?thesis using assms by (simp add: pretouch_advance_def)
next
  case False
  then have "(2::64 word) ^ j \<le> (alloc_end - touch) div HeapWordSize"
    by (simp add: pointer_delta_def)
  then have "2 ^ (j + 3) \<le> alloc_end - touch"
    by (rule stride_le_div [OF assms(2)])
  then have "touch \<le> touch + 2 ^ (j + 3)"
    using word_add_le_sub [of touch alloc_end "2 ^ (j + 3)"] assms(1) by simp
  moreover have "(2::64 word) ^ (j + 3) \<noteq> 0" using assms(2) by simp
  ultimately have "touch < touch + 2 ^ (j + 3)" by (simp add: order_less_le)
  then show ?thesis
    using assms False by (simp add: pretouch_advance_def ptr_add_def stride_bytes)
qed

lemma ptr_sub_one_le:
  assumes "is_aligned alloc_end HeapWordSize" "alloc_end \<noteq> 0"
  shows "ptr_sub alloc_end 1 < alloc_end"
proof -
  have "take_bit 3 alloc_end = 0"
    using assms(1) is_aligned_pow2 [of alloc_end 3] by (simp add: HeapWordSize_def)
  then have "2 ^ 3 dvd unat alloc_end" by (simp add: aligned_unat)
  moreover have "0 < unat alloc_end" using assms(2) by (simp add: unat_gt_0)
  ultimately have "8 \<le> unat alloc_end" by (auto dest: dvd_imp_le)
  then have "(8::64 word) \<le> alloc_end" by (simp add: word_le_nat_alt)
  then show ?thesis
    by (simp add: ptr_sub_def HeapWordSize_def) unat_arith
qed

lemma pretouch_cas_bounds:
  assumes "j \<le> 60" "is_aligned alloc_end HeapWordSize"
    and "pretouch_cas (2 ^ j) limit_words touch alloc_end alloc alloc_size = Some (ot, nt)"
  shows "ot = touch \<and> touch \<le> nt \<and> nt \<le> alloc_end \<and> touch < alloc_end"
proof -
  from assms(3) have lt: "touch < alloc_end"
    by (auto simp: pretouch_cas_def split: if_splits)
  define new_alloc where "new_alloc = ptr_add alloc alloc_size"
  define L where "L = align_down (ptr_sub alloc_end 1) (2 ^ (j + 3))"
  show ?thesis
  proof (cases "touch < new_alloc")
    case True
    show ?thesis
    proof (cases "L < new_alloc")
      case True
      with \<open>touch < new_alloc\<close> assms lt show ?thesis
        by (simp add: pretouch_cas_def Let_def new_alloc_def L_def stride_bytes split: if_splits)
    next
      case False
      then have le: "new_alloc \<le> L" by simp
      have al: "take_bit (j + 3) L = 0" by (simp add: L_def aligned_align_down)
      have "alloc_end \<noteq> 0" using lt by auto
      then have "L \<le> alloc_end"
        using ptr_sub_one_le [OF assms(2)] align_down_le [of "ptr_sub alloc_end 1" "2 ^ (j + 3)"]
        by (simp add: L_def)
      moreover have b: "new_alloc \<le> align_up new_alloc (2 ^ (j + 3)) \<and>
                     align_up new_alloc (2 ^ (j + 3)) \<le> L"
        using assms(1) by (intro align_up_bounds [OF le al]) simp
      ultimately have "align_up new_alloc (2 ^ (j + 3)) \<le> alloc_end"
        by (blast intro: order_trans)
      moreover have "pretouch_advance (2 ^ j) touch alloc_end (align_up new_alloc (2 ^ (j + 3)))
                       = Some (ot, nt)"
        using assms \<open>touch < new_alloc\<close> False lt
        by (simp add: pretouch_cas_def Let_def new_alloc_def L_def stride_bytes split: if_splits)
      ultimately have "ot = touch \<and> align_up new_alloc (2 ^ (j + 3)) \<le> nt \<and> nt \<le> alloc_end"
        by (intro pretouch_advance_bounds [OF _ assms(1)]) 
      then show ?thesis using b True lt by auto
    qed
  next
    case False
    then have "pretouch_advance (2 ^ j) touch alloc_end touch = Some (ot, nt)"
      using assms lt
      by (simp add: pretouch_cas_def Let_def new_alloc_def split: if_splits)
    moreover have "touch \<le> alloc_end" using lt by simp
    ultimately show ?thesis using lt pretouch_advance_bounds [OF _ assms(1)] by blast
  qed
qed

lemma pretouch_after_loads_fields:
  "object_space (pretouch_after_loads t e a n g) = object_space g \<and>
   virtual_space (pretouch_after_loads t e a n g) = virtual_space g \<and>
   alloc_pretouch_stride_words (pretouch_after_loads t e a n g) = alloc_pretouch_stride_words g \<and>
   alloc_pretouch_limit_words (pretouch_after_loads t e a n g) = alloc_pretouch_limit_words g"
  by (simp add: pretouch_after_loads_def split: option.splits prod.splits)

lemma pretouch_after_loads_cursor:
  assumes "alloc_pretouch_stride_words g = 2 ^ j" "j \<le> 60"
    and "is_aligned alloc_end HeapWordSize"
  shows "alloc_pretouch_next g \<le> alloc_pretouch_next (pretouch_after_loads touch alloc_end alloc alloc_size g) \<and>
         (alloc_pretouch_next (pretouch_after_loads touch alloc_end alloc alloc_size g) \<noteq> alloc_pretouch_next g
            \<longrightarrow> alloc_pretouch_next (pretouch_after_loads touch alloc_end alloc alloc_size g) \<le> alloc_end)"
proof (cases "pretouch_cas (2 ^ j) (alloc_pretouch_limit_words g) touch alloc_end alloc alloc_size")
  case None
  then show ?thesis using assms(1) by (simp add: pretouch_after_loads_def)
next
  case (Some c)
  obtain ot nt where c: "c = (ot, nt)" by (cases c)
  from pretouch_cas_bounds [OF assms(2,3) Some [unfolded c]]
  have "ot = touch \<and> touch \<le> nt \<and> nt \<le> alloc_end" by simp
  then show ?thesis
    using Some c assms(1) by (auto simp: pretouch_after_loads_def cmpxchg_def)
qed

lemma pretouch_run_cursor:
  assumes "alloc_pretouch_stride_words g = 2 ^ j" "j \<le> 60"
    and "is_aligned (ms_end (object_space g)) HeapWordSize"
  shows "alloc_pretouch_next g \<le> alloc_pretouch_next (pretouch_run calls g) \<and>
         (alloc_pretouch_next (pretouch_run calls g) \<noteq> alloc_pretouch_next g \<longrightarrow>
            alloc_pretouch_next (pretouch_run calls g) \<le> ms_end (object_space g)) \<and>
         object_space (pretouch_run calls g) = object_space g"
  using assms
proof (induction calls arbitrary: g)
  case Nil
  then show ?case by simp
next
  case (Cons c calls)
  obtain touch alloc alloc_size where c: "c = (touch, alloc, alloc_size)" by (cases c)
  let ?g = "pretouch_after_loads touch (ms_end (object_space g)) alloc alloc_size g"
  have f: "object_space ?g = object_space g"
          "alloc_pretouch_stride_words ?g = 2 ^ j"
    using Cons.prems(1) by (simp_all add: pretouch_after_loads_fields)
  have s: "alloc_pretouch_next g \<le> alloc_pretouch_next ?g \<and>
           (alloc_pretouch_next ?g \<noteq> alloc_pretouch_next g \<longrightarrow>
              alloc_pretouch_next ?g \<le> ms_end (object_space g))"
    by (rule pretouch_after_loads_cursor [OF Cons.prems])
  have ih: "alloc_pretouch_next ?g \<le> alloc_pretouch_next (pretouch_run calls ?g) \<and>
         (alloc_pretouch_next (pretouch_run calls ?g) \<noteq> alloc_pretouch_next ?g \<longrightarrow>
            alloc_pretouch_next (pretouch_run calls ?g) \<le> ms_end (object_space ?g)) \<and>
         object_space (pretouch_run calls ?g) = object_space ?g"
    using Cons.prems by (intro Cons.IH) (simp_all add: f)
  show ?case using s ih f(1) by (auto simp: c)
qed

lemma pretouch_calls_cursor:
  assumes "alloc_pretouch_stride_words g = 2 ^ j" "j \<le> 60"
    and "is_aligned (ms_end (object_space g)) HeapWordSize"
  shows "alloc_pretouch_next g \<le> alloc_pretouch_next (pretouch_calls calls g) \<and>
         (alloc_pretouch_next (pretouch_calls calls g) \<noteq> alloc_pretouch_next g \<longrightarrow>
            alloc_pretouch_next (pretouch_calls calls g) \<le> ms_end (object_space g)) \<and>
         object_space (pretouch_calls calls g) = object_space g"
  using assms
proof (induction calls arbitrary: g)
  case Nil
  then show ?case by simp
next
  case (Cons c calls)
  obtain alloc alloc_size where c: "c = (alloc, alloc_size)" by (cases c)
  let ?g = "pretouch_during_allocation alloc alloc_size g"
  have f: "object_space ?g = object_space g"
          "alloc_pretouch_stride_words ?g = 2 ^ j"
    using Cons.prems(1)
    by (simp_all add: pretouch_during_allocation_def pretouch_after_loads_fields)
  have s: "alloc_pretouch_next g \<le> alloc_pretouch_next ?g \<and>
           (alloc_pretouch_next ?g \<noteq> alloc_pretouch_next g \<longrightarrow>
              alloc_pretouch_next ?g \<le> ms_end (object_space g))"
    unfolding pretouch_during_allocation_def
    by (rule pretouch_after_loads_cursor [OF Cons.prems])
  have ih: "alloc_pretouch_next ?g \<le> alloc_pretouch_next (pretouch_calls calls ?g) \<and>
         (alloc_pretouch_next (pretouch_calls calls ?g) \<noteq> alloc_pretouch_next ?g \<longrightarrow>
            alloc_pretouch_next (pretouch_calls calls ?g) \<le> ms_end (object_space ?g)) \<and>
         object_space (pretouch_calls calls ?g) = object_space ?g"
    using Cons.prems by (intro Cons.IH) (simp_all add: f)
  show ?case using s ih f(1) by (auto simp: c)
qed

lemma post_resize_cursor:
  "alloc_pretouch_next (post_resize fl g) =
     (if is_VM_thread fl
      then (if AlwaysPreTouch fl then committed_high_addr (virtual_space g)
            else min (committed_high_addr (virtual_space g)) (alloc_pretouch_next g))
      else alloc_pretouch_next g)"
  by (simp add: post_resize_defs new_memregion_def Let_def)

lemma post_resize_object_space:
  "ms_bottom (object_space (post_resize fl g)) = committed_low_addr (virtual_space g) \<and>
   ms_end (object_space (post_resize fl g)) = committed_high_addr (virtual_space g) \<and>
   ms_top (object_space (post_resize fl g)) = ms_top (object_space g)"
  by (simp add: post_resize_defs new_memregion_def Let_def)

lemma is_power_of_2_pow2:
  assumes "k < 64"
  shows "is_power_of_2 (2 ^ k)"
proof -
  have "(2::64 word) ^ k AND mask k = 0"
    by (simp flip: take_bit_eq_mask add: take_bit_eq_0_iff)
  moreover have "(2::64 word) ^ k \<noteq> 0" using assms by simp
  ultimately show ?thesis by (simp add: is_power_of_2_def mask_eq_decr_exp)
qed

lemma stride_of_page_size:
  assumes "3 \<le> k" "k < 64"
  shows "alloc_pretouch_stride_words (initialize_allocation_pretouch (2 ^ k) n g) = 2 ^ (k - 3) \<and>
         alloc_pretouch_limit_words (initialize_allocation_pretouch (2 ^ k) n g) = 2 ^ (k - 3) * n \<and>
         k - 3 \<le> 60"
proof -
  have "unat ((2::64 word) ^ k div 8) = 2 ^ k div 2 ^ 3"
    using assms by (simp add: unat_div unat_pow2_64)
  also have "\<dots> = 2 ^ (k - 3)"
    using assms by (simp add: power_diff)
  also have "\<dots> = unat ((2::64 word) ^ (k - 3))"
    using assms by (simp add: unat_pow2_64)
  finally have "(2::64 word) ^ k div 8 = 2 ^ (k - 3)"
    by (simp only: word_unat_eq_iff)
  then show ?thesis
    using assms by (simp add: initialize_allocation_pretouch_def HeapWordSize_def Let_def)
qed

text \<open>
  C6. The stride is the page size in heap words, a power of two as shown above for every
  page size that is a power of two of at least a heap word, and the end of the object
  space is aligned to the heap word. Every compare-and-swap that a call attempts expects
  the cursor value the call loaded and installs a value that is not below it and not
  above the end of the object space. Hence over any run of calls, whatever cursor value
  each of them had loaded, the cursor does not decrease, and a cursor that has moved is
  not above the end. A call on its own is the run of one call that loaded the current
  cursor, and the same holds for a sequence of calls that run one after the other.
\<close>

theorem pretouch_cursor_non_decreasing:
  assumes "alloc_pretouch_stride_words g = 2 ^ j" "j \<le> 60"
    and "is_aligned (ms_end (object_space g)) HeapWordSize"
  shows "(\<forall>touch alloc alloc_size old_touch next_touch.
            pretouch_cas (alloc_pretouch_stride_words g) (alloc_pretouch_limit_words g)
              touch (ms_end (object_space g)) alloc alloc_size = Some (old_touch, next_touch)
            \<longrightarrow> old_touch = touch \<and> old_touch \<le> next_touch \<and>
                next_touch \<le> ms_end (object_space g)) \<and>
         pretouch_during_allocation alloc alloc_size g
           = pretouch_run [(alloc_pretouch_next g, alloc, alloc_size)] g \<and>
         alloc_pretouch_next g \<le> alloc_pretouch_next (pretouch_calls sequence g) \<and>
         (alloc_pretouch_next (pretouch_calls sequence g) \<noteq> alloc_pretouch_next g \<longrightarrow>
            alloc_pretouch_next (pretouch_calls sequence g) \<le> ms_end (object_space g)) \<and>
         alloc_pretouch_next g \<le> alloc_pretouch_next (pretouch_run calls g) \<and>
         (alloc_pretouch_next (pretouch_run calls g) \<noteq> alloc_pretouch_next g \<longrightarrow>
            alloc_pretouch_next (pretouch_run calls g) \<le> ms_end (object_space g)) \<and>
         ms_end (object_space (pretouch_run calls g)) = ms_end (object_space g)"
proof -
  have "old_touch = touch \<and> old_touch \<le> next_touch \<and> next_touch \<le> ms_end (object_space g)"
    if "pretouch_cas (alloc_pretouch_stride_words g) (alloc_pretouch_limit_words g)
              touch (ms_end (object_space g)) alloc alloc_size = Some (old_touch, next_touch)"
    for touch alloc alloc_size old_touch next_touch
    using pretouch_cas_bounds [OF assms(2,3) that [unfolded assms(1)]] by simp
  moreover have "pretouch_during_allocation alloc alloc_size g
           = pretouch_run [(alloc_pretouch_next g, alloc, alloc_size)] g"
    by (simp add: pretouch_during_allocation_def)
  ultimately show ?thesis
    using pretouch_run_cursor [OF assms, of calls] pretouch_calls_cursor [OF assms, of sequence]
    by simp
qed

theorem pretouch_cursor_non_decreasing_witness:
  "alloc_pretouch_stride_words (scenario_gen 0x1000000 0xA00000 0x40100000) = 2 ^ 9 \<and>
   is_aligned (ms_end (object_space (scenario_gen 0x1000000 0xA00000 0x40100000))) HeapWordSize \<and>
   pretouch_cas 512 2048 0x40100000 0x41000000 0x400FED40 64 = Some (0x40100000, 0x40101000) \<and>
   alloc_pretouch_next (scenario_gen 0x1000000 0xA00000 0x40100000)
     \<le> alloc_pretouch_next
          (pretouch_run [(0x40100000, 0x400FED40, 64), (0x40100000, 0x40100800, 32)]
             (scenario_gen 0x1000000 0xA00000 0x40100000)) \<and>
   alloc_pretouch_next
     (pretouch_run [(0x40100000, 0x400FED40, 64), (0x40100000, 0x40100800, 32)]
        (scenario_gen 0x1000000 0xA00000 0x40100000)) = 0x40101000"
proof -
  have h1: "alloc_pretouch_stride_words (scenario_gen 0x1000000 0xA00000 0x40100000) = 2 ^ 9"
    by (simp add: scenario_defs)
  have h2: "(9::nat) \<le> 60" by simp
  have h3: "is_aligned (ms_end (object_space (scenario_gen 0x1000000 0xA00000 0x40100000))) HeapWordSize"
    by (simp add: scenario_defs is_aligned_def HeapWordSize_def)
  have c: "pretouch_cas 512 2048 0x40100000 0x41000000 0x400FED40 64 = Some (0x40100000, 0x40101000)"
    by (simp add: pretouch_defs align_down_def align_up_def)
  have r: "alloc_pretouch_next
     (pretouch_run [(0x40100000, 0x400FED40, 64), (0x40100000, 0x40100800, 32)]
        (scenario_gen 0x1000000 0xA00000 0x40100000)) = 0x40101000"
    by (simp add: pretouch_defs align_down_def align_up_def scenario_defs)
  show ?thesis
    using pretouch_cursor_non_decreasing [OF h1 h2 h3,
        of 0 0 "[]" "[(0x40100000, 0x400FED40, 64), (0x40100000, 0x40100800, 32)]"] h1 h3 c r
    by simp
qed

text \<open>
  C7, as the code has it. Run by the VM thread, \<open>post_resize\<close> sets the cursor to the
  new end when \<open>AlwaysPreTouch\<close> is set and to the smaller of the new end and the old
  cursor otherwise, so the cursor is not above the end afterwards; run by another thread
  it leaves the cursor alone. The cursor does not decrease when it was not above the new
  end, and it stays at or above the bottom when it was. \<open>pretouch_during_allocation\<close>
  never lowers the cursor and keeps it at or below the end.
\<close>

theorem pretouch_cursor_across_resize:
  "(is_VM_thread fl \<longrightarrow>
      alloc_pretouch_next (post_resize fl g) =
        (if AlwaysPreTouch fl then committed_high_addr (virtual_space g)
         else min (committed_high_addr (virtual_space g)) (alloc_pretouch_next g)) \<and>
      alloc_pretouch_next (post_resize fl g) \<le> ms_end (object_space (post_resize fl g))) \<and>
   (\<not> is_VM_thread fl \<longrightarrow> alloc_pretouch_next (post_resize fl g) = alloc_pretouch_next g) \<and>
   (alloc_pretouch_next g \<le> committed_high_addr (virtual_space g) \<longrightarrow>
      alloc_pretouch_next g \<le> alloc_pretouch_next (post_resize fl g)) \<and>
   (committed_low_addr (virtual_space g) \<le> committed_high_addr (virtual_space g) \<and>
    committed_low_addr (virtual_space g) \<le> alloc_pretouch_next g \<longrightarrow>
      ms_bottom (object_space (post_resize fl g)) \<le> alloc_pretouch_next (post_resize fl g)) \<and>
   (alloc_pretouch_stride_words g = 2 ^ j \<and> j \<le> 60 \<and>
    is_aligned (ms_end (object_space g)) HeapWordSize \<longrightarrow>
      alloc_pretouch_next g \<le> alloc_pretouch_next (pretouch_during_allocation alloc alloc_size g) \<and>
      object_space (pretouch_during_allocation alloc alloc_size g) = object_space g \<and>
      (alloc_pretouch_next g \<le> ms_end (object_space g) \<longrightarrow>
         alloc_pretouch_next (pretouch_during_allocation alloc alloc_size g)
           \<le> ms_end (object_space g)))"
proof -
  have "alloc_pretouch_next g \<le> alloc_pretouch_next (pretouch_during_allocation alloc alloc_size g) \<and>
      object_space (pretouch_during_allocation alloc alloc_size g) = object_space g \<and>
      (alloc_pretouch_next g \<le> ms_end (object_space g) \<longrightarrow>
         alloc_pretouch_next (pretouch_during_allocation alloc alloc_size g)
           \<le> ms_end (object_space g))"
    if "alloc_pretouch_stride_words g = 2 ^ j" "j \<le> 60"
       "is_aligned (ms_end (object_space g)) HeapWordSize"
    using pretouch_after_loads_cursor [OF that, of "alloc_pretouch_next g" alloc alloc_size]
    by (auto simp: pretouch_during_allocation_def pretouch_after_loads_fields)
  then show ?thesis
    by (simp add: post_resize_cursor post_resize_object_space)
qed

theorem pretouch_cursor_across_resize_witness:
  "is_VM_thread (scenario_flags True True) \<and>
   alloc_pretouch_next scenario_after_commit
     \<le> committed_high_addr (virtual_space scenario_after_commit) \<and>
   committed_low_addr (virtual_space scenario_after_commit)
     \<le> alloc_pretouch_next scenario_after_commit \<and>
   alloc_pretouch_stride_words scenario_after_commit = 2 ^ 9 \<and>
   is_aligned (ms_end (object_space scenario_after_commit)) HeapWordSize \<and>
   alloc_pretouch_next scenario_after_commit
     \<le> alloc_pretouch_next (post_resize (scenario_flags True True) scenario_after_commit) \<and>
   alloc_pretouch_next (post_resize (scenario_flags True True) scenario_after_commit)
     \<le> ms_end (object_space (post_resize (scenario_flags True True) scenario_after_commit)) \<and>
   alloc_pretouch_next scenario_after_commit
     \<le> alloc_pretouch_next (pretouch_during_allocation 0x40000000 64 scenario_after_commit)"
  using pretouch_cursor_across_resize
    [of "scenario_flags True True" scenario_after_commit 9 "0x40000000" 64]
  by (simp add: scenario_defs scenario_after_commit_def vs_expand_by_def uncommitted_size_def
      reserved_size_def committed_size_def is_aligned_def HeapWordSize_def post_resize_cursor
      post_resize_object_space)

text \<open>
  The claim C7 itself fails when the generation shrinks: with the cursor at the end of a
  generation of 16 MiB, a shrink by 1 MiB in the VM thread moves the cursor back to the
  new end.
\<close>

theorem pretouch_cursor_lowered_by_shrink:
  "alloc_pretouch_next
     (shrink (scenario_flags True True) 0x100000 (scenario_gen 0x1000000 0xA00000 0x41000000))
   < alloc_pretouch_next (scenario_gen 0x1000000 0xA00000 0x41000000)"
  by (simp add: shrink_def vs_shrink_by_def post_resize_defs new_memregion_def
      align_down_def scenario_defs)

lemma behind_600:
  fixes c :: "64 word"
  assumes "4800 \<le> c"
  shows "\<not> c < c - 4288" 
  using assms by unat_arith

text \<open>
  C8, as the code has it, for a stride of 512 words, a limit of 2048 words and a cursor
  below the end. A call for 64 words at 600 words behind the cursor ends 536 words behind
  it, which is within the limit: the call advances the cursor by one stride, or to the
  end when less than a stride is left. A call for 512 words or more returns at once and
  changes nothing. A call for fewer than 512 words returns without a change when its
  allocation ends more than 2048 words behind the cursor; when its allocation ends past
  the cursor it moves the cursor to one stride past the allocation end aligned up, or to
  the end when less than a stride is left there, and straight to the end when the
  allocation reaches into the last page.
\<close>

theorem pretouch_scenario_window:
  assumes "alloc_pretouch_stride_words g = 512" "alloc_pretouch_limit_words g = 2048"
    and "alloc_pretouch_next g < ms_end (object_space g)"
  shows "(4800 \<le> alloc_pretouch_next g \<longrightarrow>
            alloc_pretouch_next
              (pretouch_during_allocation (ptr_sub (alloc_pretouch_next g) 600) 64 g)
              = (if pointer_delta (ms_end (object_space g)) (alloc_pretouch_next g) < 512
                 then ms_end (object_space g) else ptr_add (alloc_pretouch_next g) 512) \<and>
            alloc_pretouch_next g
              < alloc_pretouch_next
                  (pretouch_during_allocation (ptr_sub (alloc_pretouch_next g) 600) 64 g)) \<and>
         (alloc_size < 512 \<and> ptr_add alloc alloc_size \<le> alloc_pretouch_next g \<and>
          2048 < pointer_delta (alloc_pretouch_next g) (ptr_add alloc alloc_size) \<longrightarrow>
            pretouch_during_allocation alloc alloc_size g = g) \<and>
         (alloc_size < 512 \<and> alloc_pretouch_next g < ptr_add alloc alloc_size \<and>
          ptr_add alloc alloc_size \<le> align_down (ptr_sub (ms_end (object_space g)) 1) 4096 \<longrightarrow>
            alloc_pretouch_next (pretouch_during_allocation alloc alloc_size g)
              = (if pointer_delta (ms_end (object_space g))
                      (align_up (ptr_add alloc alloc_size) 4096) < 512
                 then ms_end (object_space g)
                 else ptr_add (align_up (ptr_add alloc alloc_size) 4096) 512)) \<and>
         (alloc_size < 512 \<and> alloc_pretouch_next g < ptr_add alloc alloc_size \<and>
          align_down (ptr_sub (ms_end (object_space g)) 1) 4096 < ptr_add alloc alloc_size \<longrightarrow>
            alloc_pretouch_next (pretouch_during_allocation alloc alloc_size g)
              = ms_end (object_space g)) \<and>
         (512 \<le> alloc_size \<longrightarrow> pretouch_during_allocation alloc alloc_size g = g)"
proof -
  let ?c = "alloc_pretouch_next g" and ?e = "ms_end (object_space g)"
  have n: "\<not> ?e \<le> ?c" using assms(3) by simp
  have a: "alloc_pretouch_next (pretouch_during_allocation (ptr_sub ?c 600) 64 g)
             = (if pointer_delta ?e ?c < 512 then ?e else ptr_add ?c 512) \<and>
           ?c < alloc_pretouch_next (pretouch_during_allocation (ptr_sub ?c 600) 64 g)"
    if "4800 \<le> ?c"
  proof -
    have adv: "pretouch_cas 512 2048 ?c ?e (ptr_sub ?c 600) 64 = pretouch_advance 512 ?c ?e ?c"
      using behind_600 [OF that] n
      by (simp add: pretouch_cas_def Let_def ptr_add_def ptr_sub_def pointer_delta_def
          HeapWordSize_def)
    obtain ot nt where p: "pretouch_advance (2 ^ 9) ?c ?e ?c = Some (ot, nt)"
      by (simp add: pretouch_advance_def Let_def)
    have "?c < nt" by (rule pretouch_advance_strict [OF assms(3) _ p]) simp
    moreover have "ot = ?c"
      using p by (simp add: pretouch_advance_def Let_def)
    moreover have "nt = (if pointer_delta ?e ?c < 512 then ?e else ptr_add ?c 512)"
      using p by (auto simp: pretouch_advance_def Let_def)
    ultimately show ?thesis
      using p adv assms(1,2)
      by (simp add: pretouch_during_allocation_def pretouch_after_loads_def cmpxchg_def)
  qed
  have b: "pretouch_during_allocation alloc alloc_size g = g"
    if "alloc_size < 512" "ptr_add alloc alloc_size \<le> ?c"
       "2048 < pointer_delta ?c (ptr_add alloc alloc_size)"
    using that(3) n assms(1,2) that(1) [THEN not_le [THEN iffD2]] that(2) [THEN leD]
    by (simp add: pretouch_during_allocation_def pretouch_after_loads_def pretouch_cas_def
        Let_def)
  have c: "alloc_pretouch_next (pretouch_during_allocation alloc alloc_size g)
              = (if pointer_delta ?e (align_up (ptr_add alloc alloc_size) 4096) < 512
                 then ?e else ptr_add (align_up (ptr_add alloc alloc_size) 4096) 512)"
    if "alloc_size < 512" "?c < ptr_add alloc alloc_size"
       "ptr_add alloc alloc_size \<le> align_down (ptr_sub ?e 1) 4096"
    using that(2) n assms(1,2) that(1) [THEN not_le [THEN iffD2]] that(3) [THEN leD]
    by (simp add: pretouch_during_allocation_def pretouch_after_loads_def pretouch_cas_def
        pretouch_advance_def cmpxchg_def Let_def HeapWordSize_def)
  have d: "alloc_pretouch_next (pretouch_during_allocation alloc alloc_size g) = ?e"
    if "alloc_size < 512" "?c < ptr_add alloc alloc_size"
       "align_down (ptr_sub ?e 1) 4096 < ptr_add alloc alloc_size"
    using that(2,3) n assms(1,2) that(1) [THEN not_le [THEN iffD2]]
    by (simp add: pretouch_during_allocation_def pretouch_after_loads_def pretouch_cas_def
        cmpxchg_def Let_def HeapWordSize_def)
  have e: "pretouch_during_allocation alloc alloc_size g = g" if "512 \<le> alloc_size"
    using that assms(1)
    by (simp add: pretouch_during_allocation_def pretouch_after_loads_def pretouch_cas_def)
  show ?thesis using a b c d e by blast
qed

theorem pretouch_scenario_window_witness:
  "alloc_pretouch_stride_words (scenario_gen 0x1000000 0xA00000 0x40100000) = 512 \<and>
   alloc_pretouch_limit_words (scenario_gen 0x1000000 0xA00000 0x40100000) = 2048 \<and>
   alloc_pretouch_next (scenario_gen 0x1000000 0xA00000 0x40100000)
     < ms_end (object_space (scenario_gen 0x1000000 0xA00000 0x40100000)) \<and>
   4800 \<le> alloc_pretouch_next (scenario_gen 0x1000000 0xA00000 0x40100000) \<and>
   alloc_pretouch_next (scenario_gen 0x1000000 0xA00000 0x40100000)
     < alloc_pretouch_next
         (pretouch_during_allocation
            (ptr_sub (alloc_pretouch_next (scenario_gen 0x1000000 0xA00000 0x40100000)) 600) 64
            (scenario_gen 0x1000000 0xA00000 0x40100000)) \<and>
   (64::size_t) < 512 \<and>
   alloc_pretouch_next (scenario_gen 0x1000000 0xA00000 0x40100000) < ptr_add 0x40100400 64 \<and>
   ptr_add 0x40100400 64
     \<le> align_down (ptr_sub (ms_end (object_space (scenario_gen 0x1000000 0xA00000 0x40100000))) 1) 4096 \<and>
   alloc_pretouch_next
     (pretouch_during_allocation 0x40100400 64 (scenario_gen 0x1000000 0xA00000 0x40100000))
     = 0x40102000 \<and>
   ptr_add 0x400F0000 64 \<le> alloc_pretouch_next (scenario_gen 0x1000000 0xA00000 0x40100000) \<and>
   2048 < pointer_delta (alloc_pretouch_next (scenario_gen 0x1000000 0xA00000 0x40100000))
            (ptr_add 0x400F0000 64) \<and>
   pretouch_during_allocation 0x400F0000 64 (scenario_gen 0x1000000 0xA00000 0x40100000)
     = scenario_gen 0x1000000 0xA00000 0x40100000 \<and>
   align_down (ptr_sub (ms_end (object_space (scenario_gen 0x1000000 0xA00000 0x40100000))) 1) 4096
     < ptr_add 0x40FFF100 64 \<and>
   alloc_pretouch_next
     (pretouch_during_allocation 0x40FFF100 64 (scenario_gen 0x1000000 0xA00000 0x40100000))
     = 0x41000000 \<and>
   (512::size_t) \<le> 512 \<and>
   alloc_pretouch_next (scenario_gen 0x1000000 0xA00000 0x40100000) < ptr_add 0x40100400 512 \<and>
   pretouch_during_allocation 0x40100400 512 (scenario_gen 0x1000000 0xA00000 0x40100000)
     = scenario_gen 0x1000000 0xA00000 0x40100000"
proof -
  have h1: "alloc_pretouch_stride_words (scenario_gen 0x1000000 0xA00000 0x40100000) = 512"
    and h2: "alloc_pretouch_limit_words (scenario_gen 0x1000000 0xA00000 0x40100000) = 2048"
    and h3: "alloc_pretouch_next (scenario_gen 0x1000000 0xA00000 0x40100000)
               < ms_end (object_space (scenario_gen 0x1000000 0xA00000 0x40100000))"
    by (simp_all add: scenario_defs)
  have e: "alloc_pretouch_next (scenario_gen 0x1000000 0xA00000 0x40100000) = 0x40100000"
          "ms_end (object_space (scenario_gen 0x1000000 0xA00000 0x40100000)) = 0x41000000"
    by (simp_all add: scenario_defs)
  show ?thesis
    using pretouch_scenario_window [OF h1 h2 h3, of 64 "0x40100400"]
          pretouch_scenario_window [OF h1 h2 h3, of 64 "0x400F0000"]
          pretouch_scenario_window [OF h1 h2 h3, of 64 "0x40FFF100"]
          pretouch_scenario_window [OF h1 h2 h3, of 512 "0x40100400"] h1 h2
    by (simp add: e align_up_def align_down_def ptr_add_def ptr_sub_def pointer_delta_def
        HeapWordSize_def)
qed

text \<open>
  The first half of the claim C8 itself fails: with 4096-byte pages and four worker
  threads, a cursor at 0x40100000 and the end at 0x41000000, the call for 64 words at 600
  words behind the cursor moves the cursor to 0x40101000.
\<close>

theorem pretouch_within_limit_advances:
  "alloc_pretouch_stride_words
     (initialize_allocation_pretouch 4096 4 (scenario_gen 0x1000000 0xA00000 0x40100000)) = 512 \<and>
   alloc_pretouch_limit_words
     (initialize_allocation_pretouch 4096 4 (scenario_gen 0x1000000 0xA00000 0x40100000)) = 2048 \<and>
   ptr_add 0x400FED40 600 = alloc_pretouch_next (scenario_gen 0x1000000 0xA00000 0x40100000) \<and>
   alloc_pretouch_next
     (pretouch_during_allocation 0x400FED40 64
        (initialize_allocation_pretouch 4096 4 (scenario_gen 0x1000000 0xA00000 0x40100000)))
     = 0x40101000"
  by (simp add: pretouch_defs initialize_allocation_pretouch_def scenario_defs)

subsection \<open>The committed size across resize\<close>

text \<open>
  The consistency of the sizes is an invariant of \<open>expand_by\<close>, \<open>expand_to_reserved\<close>,
  \<open>expand\<close> and \<open>resize\<close>, and of \<open>shrink\<close> for a request that is aligned and leaves
  at least \<open>min_gen_size\<close> committed. Every amount that \<open>expand\<close> hands to
  \<open>expand_by\<close> is a multiple of the alignment, whatever it was asked for.
\<close>

lemma sizes_inv_iff:
  "sizes_inv k mn mx g \<longleftrightarrow>
     take_bit k (committed_size (virtual_space g)) = 0 \<and>
     take_bit k (reserved_size (virtual_space g)) = 0 \<and>
     committed_size (virtual_space g) \<le> reserved_size (virtual_space g) \<and>
     ms_bottom (object_space g) = committed_low_addr (virtual_space g) \<and>
     ms_end (object_space g) = committed_high_addr (virtual_space g) \<and>
     mn \<le> mx \<and>
     mx \<le> reserved_size (virtual_space g) \<and>
     mn \<le> committed_size (virtual_space g) \<and>
     vs_alignment (virtual_space g) = 2 ^ k \<and> 3 \<le> k \<and> k < 64 \<and>
     min_gen_size g = mn \<and> max_gen_size g = mx"
  by (auto simp: sizes_inv_def sizes_consistent_def is_aligned_pow2)

lemma aligned_mono:
  assumes "take_bit k (x::64 word) = 0" "j \<le> k"
  shows "take_bit j x = 0"
proof -
  have "(2::nat) ^ j dvd 2 ^ k" using assms(2) by (rule le_imp_power_dvd)
  then show ?thesis using assms(1) by (auto simp: aligned_unat intro: dvd_trans)
qed

lemma words_to_bytes:
  assumes "take_bit 3 (x::64 word) = 0"
  shows "x div HeapWordSize * HeapWordSize = x"
proof -
  have d: "8 dvd unat x" using assms by (simp add: aligned_unat)
  have "unat (x div 8) * unat (8::64 word) = unat x"
    using d by (simp add: unat_div)
  moreover have "unat x < 2 ^ 64" using unsigned_less [of x] by simp
  ultimately have "unat (x div 8 * 8) = unat x"
    using unat_mult_lem [of "x div 8" "8::64 word"] by simp
  then show ?thesis by (simp add: HeapWordSize_def word_unat_eq_iff)
qed

lemma capacity_is_committed:
  assumes "sizes_inv k mn mx g"
  shows "capacity_in_bytes g = committed_size (virtual_space g)"
proof -
  have "take_bit k (committed_size (virtual_space g)) = 0" and k: "3 \<le> k"
    using assms by (auto simp: sizes_inv_iff)
  then have t: "take_bit 3 (committed_size (virtual_space g)) = 0"
    by (rule aligned_mono)
  have e: "ms_end (object_space g) - ms_bottom (object_space g)
             = committed_size (virtual_space g)"
    using assms by (auto simp: sizes_inv_iff committed_size_def)
  show ?thesis
    unfolding capacity_in_bytes_def ms_capacity_in_bytes_def pointer_delta_def e
    by (rule words_to_bytes [OF t])
qed

lemma post_resize_bounds:
  "min_gen_size (post_resize fl g) = min_gen_size g \<and>
   max_gen_size (post_resize fl g) = max_gen_size g"
  by (simp add: post_resize_defs Let_def)

lemma expand_by_fields:
  assumes "vs_expand_by (os_commit_memory fl) bytes (virtual_space g) = (True, vs)"
  shows "virtual_space (snd (expand_by fl bytes g)) = vs"
    and "ms_bottom (object_space (snd (expand_by fl bytes g))) = committed_low_addr vs"
    and "ms_end (object_space (snd (expand_by fl bytes g))) = committed_high_addr vs"
    and "min_gen_size (snd (expand_by fl bytes g)) = min_gen_size g"
    and "max_gen_size (snd (expand_by fl bytes g)) = max_gen_size g"
  using assms
  by (simp_all add: expand_by_def update_counters_after_expand_def virtual_space_post_resize
      post_resize_object_space post_resize_bounds Let_def)

lemma sizes_inv_expand_by:
  assumes "sizes_inv k mn mx g" "take_bit k bytes = 0"
  shows "sizes_inv k mn mx (snd (expand_by fl bytes g))"
proof (cases "fst (vs_expand_by (os_commit_memory fl) bytes (virtual_space g))")
  case False
  then have "expand_by fl bytes g = (False, g)"
    by (auto simp: expand_by_def split: prod.splits)
  then show ?thesis using assms(1) by simp
next
  case True
  let ?vs = "virtual_space g"
  let ?vs' = "?vs\<lparr>committed_high_addr := committed_high_addr ?vs + bytes\<rparr>"
  from True have le: "bytes \<le> reserved_size ?vs - committed_size ?vs"
    and vs': "vs_expand_by (os_commit_memory fl) bytes ?vs = (True, ?vs')"
    by (auto simp: vs_expand_by_def uncommitted_size_def split: if_splits)
  note f = expand_by_fields [OF vs']
  have c: "committed_size ?vs' = committed_size ?vs + bytes"
    by (simp add: committed_size_def)
  have r: "reserved_size ?vs' = reserved_size ?vs"
    by (simp add: reserved_size_def)
  have i: "take_bit k (committed_size ?vs) = 0" "take_bit k (reserved_size ?vs) = 0"
       "committed_size ?vs \<le> reserved_size ?vs" "mn \<le> mx"
       "mx \<le> reserved_size ?vs" "mn \<le> committed_size ?vs"
       "vs_alignment ?vs = 2 ^ k" "3 \<le> k" "k < 64" "min_gen_size g = mn" "max_gen_size g = mx"
    using assms(1) by (auto simp: sizes_inv_iff)
  have b: "committed_size ?vs \<le> committed_size ?vs + bytes"
          "committed_size ?vs + bytes \<le> reserved_size ?vs"
    using word_add_le_sub [OF i(3) le] by simp_all
  have m: "mn \<le> committed_size ?vs + bytes"
    using i(6) b(1) by (rule order_trans)
  have a: "take_bit k (committed_size ?vs + bytes) = 0"
    using i(1) assms(2) by (rule aligned_add)
  show ?thesis
    unfolding sizes_inv_iff f c r
    using i a b m by simp
qed

lemma sizes_inv_expand_to_reserved:
  assumes "sizes_inv k mn mx g"
  shows "sizes_inv k mn mx (snd (expand_to_reserved fl g))"
proof -
  have "take_bit k (uncommitted_size (virtual_space g)) = 0"
    using assms by (auto simp: sizes_inv_iff uncommitted_size_def intro: aligned_diff)
  then have "sizes_inv k mn mx (snd (expand_by fl (uncommitted_size (virtual_space g)) g))"
    by (rule sizes_inv_expand_by [OF assms])
  then show ?thesis using assms by (simp add: expand_to_reserved_def Let_def)
qed

lemma sizes_inv_expand:
  assumes "sizes_inv k mn mx g"
  shows "sizes_inv k mn mx (snd (expand fl bytes g))"
proof -
  have al: "vs_alignment (virtual_space g) = 2 ^ k" using assms by (auto simp: sizes_inv_iff)
  define a0 where "a0 = align_up (MinHeapDeltaBytes fl) (2 ^ k)"
  define a where "a = (if UseNUMA fl then max a0 (2 ^ k * numa_get_groups_num fl) else a0)"
  define b0 where "b0 = align_up bytes (2 ^ k)"
  define b where "b = (if b0 = 0 then align_down bytes (2 ^ k) else b0)"
  define r1 where "r1 = (if b < a then expand_by fl a g else (False, g))"
  define r2 where "r2 = (if \<not> fst r1 then expand_by fl b (snd r1) else r1)"
  define r3 where "r3 = (if \<not> fst r2 then expand_to_reserved fl (snd r2) else r2)"
  have "take_bit k a0 = 0" by (simp add: a0_def aligned_align_up)
  then have ta: "take_bit k a = 0" by (simp add: a_def max_def aligned_mult)
  have tb: "take_bit k b = 0" by (simp add: b_def b0_def aligned_align_up aligned_align_down)
  have i1: "sizes_inv k mn mx (snd r1)"
    using assms sizes_inv_expand_by [OF assms ta] by (simp add: r1_def)
  have i2: "sizes_inv k mn mx (snd r2)"
    using i1 sizes_inv_expand_by [OF i1 tb] by (simp add: r2_def)
  have i3: "sizes_inv k mn mx (snd r3)"
    using i2 sizes_inv_expand_to_reserved [OF i2] by (simp add: r3_def)
  have "expand fl bytes g = r3"
    by (simp add: expand_def al Let_def case_prod_beta r3_def r2_def r1_def b_def b0_def
        a_def a0_def prod_eq_iff)
  then show ?thesis using i3 by simp
qed

lemma word_sub_bounds:
  fixes c b m :: "64 word"
  assumes "m \<le> c" "b \<le> c - m"
  shows "c - b \<le> c \<and> m \<le> c - b"
  using assms by unat_arith

lemma sizes_inv_shrink:
  assumes "sizes_inv k mn mx g" "take_bit k bytes = 0"
    and "bytes \<le> committed_size (virtual_space g) - mn"
  shows "sizes_inv k mn mx (shrink fl bytes g)"
proof (cases "bytes = 0")
  case True
  then show ?thesis using assms(1) by (simp add: shrink_def align_down_def)
next
  case False
  let ?vs = "virtual_space g"
  let ?vs' = "?vs\<lparr>committed_high_addr := committed_high_addr ?vs - bytes\<rparr>"
  have i: "take_bit k (committed_size ?vs) = 0" "take_bit k (reserved_size ?vs) = 0"
       "committed_size ?vs \<le> reserved_size ?vs" "mn \<le> mx"
       "mx \<le> reserved_size ?vs" "mn \<le> committed_size ?vs"
       "vs_alignment ?vs = 2 ^ k" "3 \<le> k" "k < 64" "min_gen_size g = mn" "max_gen_size g = mx"
    using assms(1) by (auto simp: sizes_inv_iff)
  have s: "shrink fl bytes g = post_resize fl (g\<lparr>virtual_space := ?vs'\<rparr>)"
    using False assms(2) by (simp add: shrink_def i(7) align_down_aligned vs_shrink_by_def word_gt_0)
  have c: "committed_size ?vs' = committed_size ?vs - bytes"
    by (simp add: committed_size_def)
  have r: "reserved_size ?vs' = reserved_size ?vs"
    by (simp add: reserved_size_def)
  have b: "committed_size ?vs - bytes \<le> committed_size ?vs"
          "mn \<le> committed_size ?vs - bytes"
    using word_sub_bounds [OF i(6) assms(3)] by simp_all
  have b': "committed_size ?vs - bytes \<le> reserved_size ?vs"
    using b(1) i(3) by (rule order_trans)
  have a: "take_bit k (committed_size ?vs - bytes) = 0"
    using i(1) assms(2) by (rule aligned_diff)
  show ?thesis
    unfolding s sizes_inv_iff virtual_space_post_resize post_resize_object_space [THEN conjunct1]
      post_resize_object_space [THEN conjunct2, THEN conjunct1]
      post_resize_bounds [THEN conjunct1] post_resize_bounds [THEN conjunct2]
    using i a b b' by (simp add: c r)
qed

lemma clamp_bounds:
  assumes "lo \<le> hi"
  shows "lo \<le> clamp v lo hi \<and> clamp v lo hi \<le> hi"
  using assms by (simp add: clamp_def)

lemma word_diff_le_diff:
  fixes c n m :: "64 word"
  assumes "m \<le> n" "n \<le> c"
  shows "c - n \<le> c - m"
  using assms by unat_arith

lemma sizes_inv_resize:
  assumes "sizes_inv k mn mx g"
  shows "sizes_inv k mn mx (resize fl desired_free_space g)"
proof -
  have i: "take_bit k (committed_size (virtual_space g)) = 0" "mn \<le> mx"
       "take_bit k (reserved_size (virtual_space g)) = 0"
       "mn \<le> committed_size (virtual_space g)"
       "vs_alignment (virtual_space g) = 2 ^ k" "k < 64" "min_gen_size g = mn" "max_gen_size g = mx"
       "mx \<le> reserved_size (virtual_space g)"
    using assms by (auto simp: sizes_inv_iff)
  define v where "v = (if used_in_bytes g + desired_free_space < used_in_bytes g
                       then mx else used_in_bytes g + desired_free_space)"
  define n where "n = align_up (clamp v mn mx) (2 ^ k)"
  have n: "resize_new_size g desired_free_space = n"
    by (simp add: resize_new_size_def Let_def i(5,7,8) n_def v_def)
  have cb: "mn \<le> clamp v mn mx" "clamp v mn mx \<le> mx"
    using clamp_bounds [OF i(2)] by simp_all
  have cr: "clamp v mn mx \<le> reserved_size (virtual_space g)"
    using cb(2) i(9) by (rule order_trans)
  have nb: "clamp v mn mx \<le> n" "n \<le> reserved_size (virtual_space g)"
    using align_up_bounds [OF cr i(3) i(6)] by (simp_all add: n_def)
  have mn: "mn \<le> n" using cb(1) nb(1) by (rule order_trans)
  have tn: "take_bit k n = 0" by (simp add: n_def aligned_align_up)
  have cap: "capacity_in_bytes g = committed_size (virtual_space g)"
    by (rule capacity_is_committed [OF assms])
  consider "n = committed_size (virtual_space g)" | "committed_size (virtual_space g) < n"
    | "n < committed_size (virtual_space g)"
    by (meson linorder_neqE)
  then show ?thesis
  proof cases
    case 1
    then show ?thesis using assms by (simp add: resize_def n cap Let_def)
  next
    case 2
    then have "n \<noteq> committed_size (virtual_space g)" by auto
    with 2 show ?thesis
      using sizes_inv_expand [OF assms] by (simp add: resize_def n cap Let_def)
  next
    case 3
    then have le: "n \<le> committed_size (virtual_space g)" by simp
    have "sizes_inv k mn mx (shrink fl (committed_size (virtual_space g) - n) g)"
      using assms
    proof (rule sizes_inv_shrink)
      show "take_bit k (committed_size (virtual_space g) - n) = 0"
        using i(1) tn by (rule aligned_diff)
      show "committed_size (virtual_space g) - n \<le> committed_size (virtual_space g) - mn"
        using mn le by (rule word_diff_le_diff)
    qed
    moreover have "n \<noteq> committed_size (virtual_space g)"
      "\<not> committed_size (virtual_space g) < n" using 3 by auto
    ultimately show ?thesis
      by (simp add: resize_def n cap Let_def)
  qed
qed

lemma resize_new_size_bounds:
  assumes "sizes_inv k mn mx g"
  shows "mn \<le> resize_new_size g desired_free_space \<and>
         resize_new_size g desired_free_space \<le> reserved_size (virtual_space g) \<and>
         take_bit k (resize_new_size g desired_free_space) = 0 \<and>
         (take_bit k mx = 0 \<longrightarrow> resize_new_size g desired_free_space \<le> mx)"
proof -
  have i: "mn \<le> mx" "take_bit k (reserved_size (virtual_space g)) = 0"
       "vs_alignment (virtual_space g) = 2 ^ k" "k < 64"
       "min_gen_size g = mn" "max_gen_size g = mx" "mx \<le> reserved_size (virtual_space g)"
    using assms by (auto simp: sizes_inv_iff)
  define v where "v = (if used_in_bytes g + desired_free_space < used_in_bytes g
                       then mx else used_in_bytes g + desired_free_space)"
  have n: "resize_new_size g desired_free_space = align_up (clamp v mn mx) (2 ^ k)"
    by (simp add: resize_new_size_def Let_def i(3,5,6) v_def)
  have cb: "mn \<le> clamp v mn mx" "clamp v mn mx \<le> mx"
    using clamp_bounds [OF i(1)] by simp_all
  have cr: "clamp v mn mx \<le> reserved_size (virtual_space g)"
    using cb(2) i(7) by (rule order_trans)
  have nb: "clamp v mn mx \<le> align_up (clamp v mn mx) (2 ^ k)"
           "align_up (clamp v mn mx) (2 ^ k) \<le> reserved_size (virtual_space g)"
    using align_up_bounds [OF cr i(2) i(4)] by simp_all
  have lo: "mn \<le> align_up (clamp v mn mx) (2 ^ k)" using cb(1) nb(1) by (rule order_trans)
  have "align_up (clamp v mn mx) (2 ^ k) \<le> mx" if "take_bit k mx = 0"
    using align_up_bounds [OF cb(2) that i(4)] by simp
  then show ?thesis using lo nb(2) by (simp add: n aligned_align_up)
qed

lemma expand_by_reserved:
  "reserved_size (virtual_space (snd (expand_by fl bytes g))) = reserved_size (virtual_space g)"
  by (simp add: expand_by_def vs_expand_by_def update_counters_after_expand_def
      virtual_space_post_resize reserved_size_def Let_def)

lemma expand_to_reserved_reserved:
  "reserved_size (virtual_space (snd (expand_to_reserved fl g))) = reserved_size (virtual_space g)"
  by (simp add: expand_to_reserved_def expand_by_reserved Let_def)

lemma expand_reserved:
  "reserved_size (virtual_space (snd (expand fl bytes g))) = reserved_size (virtual_space g)"
  by (simp add: expand_def Let_def case_prod_beta expand_by_reserved expand_to_reserved_reserved)

lemma shrink_reserved:
  "reserved_size (virtual_space (shrink fl bytes g)) = reserved_size (virtual_space g)"
  by (simp add: shrink_def vs_shrink_by_def virtual_space_post_resize reserved_size_def Let_def)

lemma resize_reserved_size:
  "reserved_size (virtual_space (resize fl desired_free_space g))
     = reserved_size (virtual_space g)"
  by (simp add: resize_def Let_def expand_reserved shrink_reserved)

text \<open>
  C2, as the code has it. For a generation whose sizes are consistent and whose alignment
  is a power of two of at least a heap word, \<open>resize\<close> leaves the committed size between
  \<open>min_gen_size\<close> and the reserved size and a multiple of the alignment, for every
  desired free space, every setting of the flags and every answer of the operating
  system; where the reserved size is within \<open>max_gen_size\<close>, which is what \<open>resize\<close>
  asserts, the committed size is within \<open>max_gen_size\<close>. The target size is aligned and
  between \<open>min_gen_size\<close> and the reserved size, and within \<open>max_gen_size\<close> when
  \<open>max_gen_size\<close> is a multiple of the alignment. The sizes stay consistent, and the
  bounds, the alignment and the reserved size are the ones from before.
\<close>

theorem resize_keeps_size_within_bounds:
  assumes "sizes_consistent g" "vs_alignment (virtual_space g) = 2 ^ k" "3 \<le> k" "k < 64"
  shows "min_gen_size g \<le> committed_size (virtual_space (resize fl desired_free_space g)) \<and>
         committed_size (virtual_space (resize fl desired_free_space g))
           \<le> reserved_size (virtual_space g) \<and>
         (reserved_size (virtual_space g) \<le> max_gen_size g \<longrightarrow>
            committed_size (virtual_space (resize fl desired_free_space g)) \<le> max_gen_size g) \<and>
         is_aligned (committed_size (virtual_space (resize fl desired_free_space g)))
           (vs_alignment (virtual_space g)) \<and>
         min_gen_size g \<le> resize_new_size g desired_free_space \<and>
         resize_new_size g desired_free_space \<le> reserved_size (virtual_space g) \<and>
         (is_aligned (max_gen_size g) (vs_alignment (virtual_space g)) \<longrightarrow>
            resize_new_size g desired_free_space \<le> max_gen_size g) \<and>
         is_aligned (resize_new_size g desired_free_space) (vs_alignment (virtual_space g)) \<and>
         sizes_consistent (resize fl desired_free_space g) \<and>
         min_gen_size (resize fl desired_free_space g) = min_gen_size g \<and>
         max_gen_size (resize fl desired_free_space g) = max_gen_size g \<and>
         vs_alignment (virtual_space (resize fl desired_free_space g))
           = vs_alignment (virtual_space g) \<and>
         reserved_size (virtual_space (resize fl desired_free_space g))
           = reserved_size (virtual_space g)"
proof -
  let ?g = "resize fl desired_free_space g"
  have i: "sizes_inv k (min_gen_size g) (max_gen_size g) g"
    using assms by (simp add: sizes_inv_def)
  have r: "sizes_inv k (min_gen_size g) (max_gen_size g) ?g"
    by (rule sizes_inv_resize [OF i])
  have f: "take_bit k (committed_size (virtual_space ?g)) = 0"
       "committed_size (virtual_space ?g) \<le> reserved_size (virtual_space ?g)"
       "min_gen_size g \<le> committed_size (virtual_space ?g)"
       "vs_alignment (virtual_space ?g) = 2 ^ k"
       "min_gen_size ?g = min_gen_size g" "max_gen_size ?g = max_gen_size g"
    using r by (auto simp: sizes_inv_iff)
  have rs: "reserved_size (virtual_space ?g) = reserved_size (virtual_space g)"
    by (rule resize_reserved_size)
  have c: "sizes_consistent ?g" using r by (simp add: sizes_inv_def)
  have u: "committed_size (virtual_space ?g) \<le> reserved_size (virtual_space g)"
    using f(2) by (simp only: rs)
  have m: "committed_size (virtual_space ?g) \<le> max_gen_size g"
    if "reserved_size (virtual_space g) \<le> max_gen_size g"
    using u that by (rule order_trans)
  note n = resize_new_size_bounds [OF i, of desired_free_space]
  show ?thesis
    using f(1,3,4,5,6) c u m n rs by (simp add: assms(2) is_aligned_pow2)
qed

lemmas resize_defs =
  resize_def resize_new_size_def expand_def expand_by_def expand_to_reserved_def shrink_def
  vs_expand_by_def vs_shrink_by_def update_counters_after_expand_def used_in_bytes_def
  capacity_in_bytes_def ms_used_in_bytes_def ms_capacity_in_bytes_def committed_size_def
  reserved_size_def uncommitted_size_def clamp_def align_up_def align_down_def
  pointer_delta_def HeapWordSize_def new_memregion_def

theorem resize_keeps_size_within_bounds_witness:
  "sizes_consistent (scenario_gen 0x1000000 0xA00000 0x40000000) \<and>
   vs_alignment (virtual_space (scenario_gen 0x1000000 0xA00000 0x40000000)) = 2 ^ 20 \<and>
   reserved_size (virtual_space (scenario_gen 0x1000000 0xA00000 0x40000000))
     \<le> max_gen_size (scenario_gen 0x1000000 0xA00000 0x40000000) \<and>
   is_aligned (max_gen_size (scenario_gen 0x1000000 0xA00000 0x40000000))
     (vs_alignment (virtual_space (scenario_gen 0x1000000 0xA00000 0x40000000))) \<and>
   committed_size (virtual_space
     (resize (scenario_flags True True) 0x1400000 (scenario_gen 0x1000000 0xA00000 0x40000000)))
     = 0x1E00000 \<and>
   min_gen_size (scenario_gen 0x1000000 0xA00000 0x40000000)
     \<le> committed_size (virtual_space
          (resize (scenario_flags True True) 0x1400000 (scenario_gen 0x1000000 0xA00000 0x40000000))) \<and>
   committed_size (virtual_space
     (resize (scenario_flags True True) 0x1400000 (scenario_gen 0x1000000 0xA00000 0x40000000)))
     \<le> max_gen_size (scenario_gen 0x1000000 0xA00000 0x40000000) \<and>
   resize_new_size (scenario_gen 0x1000000 0xA00000 0x40000000) 0x1400000
     \<le> max_gen_size (scenario_gen 0x1000000 0xA00000 0x40000000)"
proof -
  have h1: "sizes_consistent (scenario_gen 0x1000000 0xA00000 0x40000000)"
    by (simp add: sizes_consistent_def scenario_defs is_aligned_def committed_size_def
        reserved_size_def)
  have h2: "vs_alignment (virtual_space (scenario_gen 0x1000000 0xA00000 0x40000000)) = 2 ^ 20"
    by (simp add: scenario_defs)
  have h3: "reserved_size (virtual_space (scenario_gen 0x1000000 0xA00000 0x40000000))
     \<le> max_gen_size (scenario_gen 0x1000000 0xA00000 0x40000000)"
    by (simp add: scenario_defs reserved_size_def)
  have h4: "is_aligned (max_gen_size (scenario_gen 0x1000000 0xA00000 0x40000000))
     (vs_alignment (virtual_space (scenario_gen 0x1000000 0xA00000 0x40000000)))"
    by (simp add: scenario_defs is_aligned_def)
  have e: "committed_size (virtual_space
     (resize (scenario_flags True True) 0x1400000 (scenario_gen 0x1000000 0xA00000 0x40000000)))
     = 0x1E00000"
    by (simp add: resize_defs post_resize_defs scenario_defs Let_def)
  show ?thesis
    using resize_keeps_size_within_bounds [OF h1 h2, of "scenario_flags True True" "0x1400000"]
      h1 h2 h3 h4 e
    by simp
qed

text \<open>
  The claim C2 itself fails where \<open>max_gen_size\<close> is below the reserved size: with
  64 MiB reserved, an alignment of 1 MiB and a maximum of 63.5 MiB, \<open>resize\<close> clamps the
  target to the maximum, aligns it up to 64 MiB and commits 64 MiB.
\<close>

theorem resize_commits_past_max_below_reserved:
  "min_gen_size scenario_max_below_reserved \<le> max_gen_size scenario_max_below_reserved \<and>
   max_gen_size scenario_max_below_reserved
     \<le> reserved_size (virtual_space scenario_max_below_reserved) \<and>
   sizes_consistent scenario_max_below_reserved \<and>
   clamp (used_in_bytes scenario_max_below_reserved + 0x3600000)
     (min_gen_size scenario_max_below_reserved) (max_gen_size scenario_max_below_reserved)
     = max_gen_size scenario_max_below_reserved \<and>
   resize_new_size scenario_max_below_reserved 0x3600000 = 0x4000000 \<and>
   committed_size (virtual_space
     (resize (scenario_flags True True) 0x3600000 scenario_max_below_reserved)) = 0x4000000 \<and>
   max_gen_size scenario_max_below_reserved
     < committed_size (virtual_space
         (resize (scenario_flags True True) 0x3600000 scenario_max_below_reserved))"
  by (simp add: resize_defs post_resize_defs scenario_defs scenario_max_below_reserved_def
      sizes_consistent_def is_aligned_def Let_def)

subsection \<open>Iteration by blocks\<close>

text \<open>
  In a heap that holds a chain of objects the starts are strictly increasing, the loop
  over the objects walks the chain up to the end of the block, and the two queries of
  the object-start index lead \<open>object_iterate_block\<close> to the first object that starts
  in the block.
\<close>

lemma chain_sorted:
  "objects_from heap p ss t \<Longrightarrow> sorted_wrt (<) ss \<and> (\<forall>s \<in> set ss. p \<le> s \<and> s < t) \<and> p \<le> t"
proof (induction ss arbitrary: p)
  case Nil
  then show ?case by simp
next
  case (Cons s ss)
  then have h: "s = p" "p < ptr_add p (heap p)" "ptr_add p (heap p) \<le> t"
    "objects_from heap (ptr_add p (heap p)) ss t" by simp_all
  from Cons.IH [OF h(4)] have ih: "sorted_wrt (<) ss"
    "\<forall>x \<in> set ss. ptr_add p (heap p) \<le> x \<and> x < t" by simp_all
  have "p < t" using h(2,3) by (rule less_le_trans)
  moreover have "\<forall>x \<in> set ss. p < x \<and> x < t"
    using ih(2) h(2) by (auto intro: less_le_trans)
  ultimately show ?case using ih(1) h(1) by (auto intro: less_imp_le)
qed

lemma chain_append:
  "objects_from heap p (as @ bs) t \<Longrightarrow>
     \<exists>q. objects_from heap p as q \<and> objects_from heap q bs t"
proof (induction as arbitrary: p)
  case Nil
  then show ?case by simp
next
  case (Cons a as)
  then have h: "a = p" "p < ptr_add p (heap p)" "ptr_add p (heap p) \<le> t"
    "objects_from heap (ptr_add p (heap p)) (as @ bs) t" by simp_all
  from Cons.IH [OF h(4)] obtain q where
    q: "objects_from heap (ptr_add p (heap p)) as q" "objects_from heap q bs t" by blast
  have "ptr_add p (heap p) \<le> q" using chain_sorted [OF q(1)] by simp
  then show ?case using h q by auto
qed

lemma chain_last:
  "objects_from heap p as q \<Longrightarrow> as \<noteq> [] \<Longrightarrow> q = ptr_add (last as) (heap (last as))"
proof (induction as arbitrary: p)
  case Nil
  then show ?case by simp
next
  case (Cons a as)
  then show ?case by (cases as) auto
qed

lemma chain_hd: "objects_from heap q bs t \<Longrightarrow> bs \<noteq> [] \<Longrightarrow> hd bs = q"
  by (cases bs) auto

lemma iterate_objects_chain:
  assumes "objects_from heap p ss t" "e \<le> t"
  shows "iterate_objects heap p e = Some (takeWhile (\<lambda>s. s < e) ss)"
  using assms(1)
proof (induction ss arbitrary: p)
  case Nil
  then have "\<not> p < e" using assms(2) by auto
  then show ?case by (subst iterate_objects.simps) simp
next
  case (Cons s ss)
  then have h: "s = p" "objects_from heap (ptr_add p (heap p)) ss t" by simp_all
  show ?case
    by (subst iterate_objects.simps) (simp add: h(1) Cons.IH [OF h(2)])
qed

lemma dropWhile_ge:
  fixes b :: "'a::linorder"
  assumes "sorted_wrt (<) ss"
  shows "\<forall>s \<in> set (dropWhile (\<lambda>s. s < b) ss). b \<le> s"
  using assms
proof (induction ss)
  case Nil
  then show ?case by simp
next
  case (Cons x xs)
  then show ?case by (auto simp: not_less intro: order_trans less_imp_le)
qed

lemma takeWhile_lt:
  fixes b :: "'a::linorder"
  shows "\<forall>s \<in> set (takeWhile (\<lambda>s. s < b) ss). s < b"
  by (auto dest: set_takeWhileD)

lemma filter_lt_takeWhile:
  fixes e :: "'a::linorder"
  assumes "sorted_wrt (<) ss"
  shows "filter (\<lambda>s. s < e) ss = takeWhile (\<lambda>s. s < e) ss"
  using assms
proof (induction ss)
  case Nil
  then show ?case by simp
next
  case (Cons x xs)
  show ?case
  proof (cases "x < e")
    case True
    then show ?thesis using Cons by simp
  next
    case False
    then have "\<forall>y \<in> set xs. \<not> y < e" using Cons.prems by (auto simp: not_less intro: order_trans less_imp_le)
    then show ?thesis using False by (simp add: filter_empty_conv)
  qed
qed

lemma filter_block:
  fixes b e :: "'a::linorder"
  assumes "sorted_wrt (<) ss"
  shows "filter (\<lambda>s. b \<le> s \<and> s < e) ss
           = takeWhile (\<lambda>s. s < e) (dropWhile (\<lambda>s. s < b) ss)"
proof -
  let ?A = "takeWhile (\<lambda>s. s < b) ss" and ?B = "dropWhile (\<lambda>s. s < b) ss"
  have sB: "sorted_wrt (<) ?B"
    using assms by (metis sorted_wrt_append takeWhile_dropWhile_id)
  have "filter (\<lambda>s. b \<le> s \<and> s < e) ss
          = filter (\<lambda>s. b \<le> s \<and> s < e) ?A @ filter (\<lambda>s. b \<le> s \<and> s < e) ?B"
    by (metis filter_append takeWhile_dropWhile_id)
  moreover have "filter (\<lambda>s. b \<le> s \<and> s < e) ?A = []"
    using takeWhile_lt [of b ss] by (auto simp: filter_empty_conv)
  moreover have "filter (\<lambda>s. b \<le> s \<and> s < e) ?B = filter (\<lambda>s. s < e) ?B"
    using dropWhile_ge [OF assms, of b] by (intro filter_cong) auto
  ultimately show ?thesis by (simp add: filter_lt_takeWhile [OF sB])
qed

lemma filter_interval_append:
  fixes a b c :: "'a::linorder"
  assumes "sorted_wrt (<) ss" "a \<le> b" "b \<le> c"
  shows "filter (\<lambda>s. a \<le> s \<and> s < b) ss @ filter (\<lambda>s. b \<le> s \<and> s < c) ss
           = filter (\<lambda>s. a \<le> s \<and> s < c) ss"
  using assms(1)
proof (induction ss)
  case Nil
  then show ?case by simp
next
  case (Cons x xs)
  then have ih: "filter (\<lambda>s. a \<le> s \<and> s < b) xs @ filter (\<lambda>s. b \<le> s \<and> s < c) xs
           = filter (\<lambda>s. a \<le> s \<and> s < c) xs" and gt: "\<forall>y \<in> set xs. x < y"
    by simp_all
  show ?case
  proof (cases "b \<le> x")
    case True
    then have "\<forall>y \<in> set xs. \<not> (a \<le> y \<and> y < b)"
      using gt by (auto simp: not_less intro: order_trans less_imp_le)
    then have e: "filter (\<lambda>s. a \<le> s \<and> s < b) xs = []" by (simp add: filter_empty_conv)
    have "a \<le> x" using assms(2) True by (rule order_trans)
    then show ?thesis using True ih e by (auto simp: not_less)
  next
    case False
    then have "x < b" by simp
    then have "x < c" using assms(3) by (rule less_le_trans)
    then show ?thesis using False \<open>x < b\<close> ih by auto
  qed
qed

lemma concat_blocks:
  fixes f :: "nat \<Rightarrow> 'a::linorder"
  assumes "sorted_wrt (<) ss" "\<forall>i < n. f i \<le> f (Suc i)"
  shows "concat (map (\<lambda>i. filter (\<lambda>s. f i \<le> s \<and> s < f (Suc i)) ss) [0..<n])
           = filter (\<lambda>s. f 0 \<le> s \<and> s < f n) ss \<and> f 0 \<le> f n"
  using assms(2)
proof (induction n)
  case 0
  then show ?case by (simp add: not_less [symmetric])
next
  case (Suc n)
  then have ih: "concat (map (\<lambda>i. filter (\<lambda>s. f i \<le> s \<and> s < f (Suc i)) ss) [0..<n])
           = filter (\<lambda>s. f 0 \<le> s \<and> s < f n) ss" "f 0 \<le> f n" and st: "f n \<le> f (Suc n)"
    by simp_all
  show ?case
    using filter_interval_append [OF assms(1) ih(2) st] ih st
    by (auto intro: order_trans)
qed

lemma block_visits:
  assumes chain: "objects_from heap bottom ss t" and sa: "sa_starts sa = ss"
    and be: "bottom \<le> b" "e \<le> t"
  shows "(if \<not> object_starts_in_range sa b e then Some []
          else iterate_objects heap
                 (if object_start sa b < b
                  then ptr_add (object_start sa b) (heap (object_start sa b))
                  else object_start sa b) e)
         = Some (filter (\<lambda>s. b \<le> s \<and> s < e) ss)"
proof (cases "object_starts_in_range sa b e")
  case False
  then have "\<forall>s \<in> set ss. \<not> (b \<le> s \<and> s < e)"
    by (simp add: object_starts_in_range_def sa list_ex_iff)
  then have "filter (\<lambda>s. b \<le> s \<and> s < e) ss = []" by (simp add: filter_empty_conv)
  then show ?thesis using False by simp
next
  case True
  let ?A = "takeWhile (\<lambda>s. s < b) ss" and ?B = "dropWhile (\<lambda>s. s < b) ss"
  have srt: "sorted_wrt (<) ss" using chain_sorted [OF chain] by simp
  from True obtain s0 where s0: "s0 \<in> set ss" "b \<le> s0" "s0 < e"
    by (auto simp: object_starts_in_range_def sa list_ex_iff)
  have "?B \<noteq> []"
  proof
    assume "?B = []"
    then have "\<forall>s \<in> set ss. s < b" by simp
    then show False using s0 by auto
  qed
  then obtain q B' where B: "?B = q # B'" by (cases ?B) auto
  have split: "ss = ?A @ q # B'" using B by (metis takeWhile_dropWhile_id)
  from chain_append [of heap bottom ?A "q # B'" t] chain split
  obtain q' where q': "objects_from heap bottom ?A q'" "objects_from heap q' (q # B') t"
    by auto
  then have qq: "q' = q" by simp
  have bq: "b \<le> q" using dropWhile_ge [OF srt, of b] B by simp
  have sB: "sorted_wrt (<) (q # B')" using srt split by (metis sorted_wrt_append)
  then have gt: "\<forall>y \<in> set B'. b < y" using bq by (auto intro: le_less_trans)
  have fA: "filter (\<lambda>s. s \<le> b) ?A = ?A"
    using takeWhile_lt [of b ss] by (auto simp: filter_id_conv intro: less_imp_le)
  have fB: "filter (\<lambda>s. s \<le> b) B' = []"
    using gt by (auto simp: filter_empty_conv)
  have start: "(if object_start sa b < b
                then ptr_add (object_start sa b) (heap (object_start sa b))
                else object_start sa b) = q"
  proof (cases "q = b")
    case True
    have "filter (\<lambda>s. s \<le> b) ss = ?A @ [b]"
      by (subst split) (simp add: fA fB True)
    then have "object_start sa b = b" by (simp add: object_start_def sa)
    then show ?thesis using True by simp
  next
    case False
    then have "b < q" using bq by simp
    then have f: "filter (\<lambda>s. s \<le> b) ss = ?A"
      by (subst split) (simp add: fA fB)
    have "?A \<noteq> []"
    proof
      assume "?A = []"
      then have "bottom = q" using q'(1) qq by simp
      then show False using be(1) \<open>b < q\<close> by simp
    qed
    then have l: "object_start sa b = last ?A" by (simp add: object_start_def sa f)
    have "last ?A \<in> set ?A" using \<open>?A \<noteq> []\<close> by (rule last_in_set)
    then have "last ?A < b" using takeWhile_lt [of b ss] by blast
    moreover have "ptr_add (last ?A) (heap (last ?A)) = q"
      using chain_last [OF q'(1) \<open>?A \<noteq> []\<close>] qq by simp
    ultimately show ?thesis by (simp add: l)
  qed
  have "iterate_objects heap q e = Some (takeWhile (\<lambda>s. s < e) (q # B'))"
    using q'(2) be(2) unfolding qq by (rule iterate_objects_chain)
  then show ?thesis
    using True by (simp only: start filter_block [OF srt] B if_False not_True_eq_False)
qed

lemma chain_aligned:
  "objects_from heap p ss t \<Longrightarrow> take_bit 3 (t - p) = 0"
proof (induction ss arbitrary: p)
  case Nil
  then show ?case by simp
next
  case (Cons s ss)
  then have ih: "take_bit 3 (t - ptr_add p (heap p)) = 0" by simp
  have "take_bit 3 ((2::64 word) ^ 3 * heap p) = 0" by (rule aligned_mult)
  then have a: "take_bit 3 (t - ptr_add p (heap p) + 2 ^ 3 * heap p) = 0"
    using ih by (intro aligned_add)
  have e: "t - ptr_add p (heap p) + 2 ^ 3 * heap p = t - p"
    by (simp add: ptr_add_def HeapWordSize_def)
  from a show ?case by (simp only: e)
qed

lemma nat_blocks:
  fixes U I :: nat
  assumes "0 < I"
  shows "i < (U + (I - 1)) div I \<Longrightarrow> i * I < U"
    and "U \<le> (U + (I - 1)) div I * I"
    and "(U + (I - 1)) div I * I < U + I"
proof -
  show "i * I < U" if "i < (U + (I - 1)) div I"
  proof -
    have "Suc i \<le> (U + (I - 1)) div I" using that by simp
    then have "Suc i * I \<le> U + (I - 1)"
      using assms by (simp only: less_eq_div_iff_mult_less_eq)
    then have "i * I + I \<le> U + (I - 1)" by simp
    then show ?thesis using assms by arith
  qed
  show "U \<le> (U + (I - 1)) div I * I" using assms by (rule nat_round_up_ge)
  obtain J where J: "I = Suc J" using assms by (cases I) auto
  have "(U + J) div Suc J * Suc J \<le> U + J" by (rule div_times_less_eq_dividend)
  then have "(U + J) div Suc J * Suc J < U + Suc J" by simp
  then show "(U + (I - 1)) div I * I < U + I" by (simp add: J)
qed

lemma unat_boundary:
  fixes bot ibs :: "64 word"
  assumes "unat bot + i * unat ibs < 2 ^ 64"
  shows "unat (bot + of_nat i * ibs) = unat bot + i * unat ibs"
proof -
  have "bot + of_nat i * ibs = of_nat (unat bot + i * unat ibs)" by simp
  then show ?thesis using assms by (simp only: unat_of_nat) simp
qed

lemma iterate_blocks_concat:
  assumes "\<forall>i \<in> set is. object_iterate_block fl heap g (of_nat i) = Some (v i)"
  shows "iterate_blocks fl heap g is = Some (concat (map v is))"
  using assms by (induction "is") simp_all

text \<open>
  C9. Let the space between bottom and top hold a chain of objects whose starts the
  object-start index has recorded, let the block size be a nonzero multiple of the heap
  word, and let top be at least one block below the end of the address space. Then the
  number of blocks is the used bytes divided by the block size, rounded up; the call for
  a block index below it hands to the closure exactly the objects that start in the
  block, in address order, so an object that reaches into the next block is not visited
  from there, and a block in which no object starts gives no call at all; and the calls
  for all the blocks, one after the other, visit every object of the space exactly once.
\<close>

theorem object_iterate_block_visits_each_object_once:
  assumes chain: "objects_from heap (ms_bottom (object_space g)) (sa_starts (start_array g))
                    (ms_top (object_space g))"
    and nz: "IterateBlockSize fl \<noteq> 0"
    and al: "is_aligned (IterateBlockSize fl) HeapWordSize"
    and nw: "unat (ms_top (object_space g)) + unat (IterateBlockSize fl) \<le> 2 ^ 64"
  shows "object_iterate_all fl heap g = Some (sa_starts (start_array g)) \<and>
         distinct (sa_starts (start_array g)) \<and>
         unat (num_iterable_blocks fl g)
           = (unat (used_in_bytes g) + (unat (IterateBlockSize fl) - 1))
               div unat (IterateBlockSize fl) \<and>
         (\<forall>i < unat (num_iterable_blocks fl g).
            object_iterate_block fl heap g (of_nat i)
              = Some (filter (\<lambda>s. block_begin fl g (of_nat i) \<le> s \<and>
                                   s < block_end fl g (of_nat i))
                        (sa_starts (start_array g))))"
proof -
  let ?bot = "ms_bottom (object_space g)" and ?top = "ms_top (object_space g)"
  let ?ibs = "IterateBlockSize fl" and ?ss = "sa_starts (start_array g)"
  define I where "I = unat ?ibs"
  define U where "U = unat ?top - unat ?bot"
  define N where "N = (U + (I - 1)) div I"
  define B where "B i = ?bot + of_nat i * ?ibs" for i :: nat
  define f where "f i = min ?top (B i)" for i :: nat
  have I0: "0 < I" using nz by (simp add: I_def unat_gt_0)
  have srt: "sorted_wrt (<) ?ss" and rng: "\<forall>s \<in> set ?ss. ?bot \<le> s \<and> s < ?top"
    and bt: "?bot \<le> ?top"
    using chain_sorted [OF chain] by simp_all
  have ut: "unat ?top = unat ?bot + U"
    using bt by (simp add: U_def word_le_nat_alt)
  have big: "unat ?bot + U + I \<le> 2 ^ 64" using nw by (simp only: ut I_def)
  have "take_bit 3 ?ibs = 0"
    using al is_aligned_pow2 [of ?ibs 3] by (simp add: HeapWordSize_def)
  then have ibs8: "?ibs div HeapWordSize * HeapWordSize = ?ibs" by (rule words_to_bytes)
  have used: "used_in_bytes g = ?top - ?bot"
    unfolding used_in_bytes_def ms_used_in_bytes_def pointer_delta_def
    by (rule words_to_bytes [OF chain_aligned [OF chain]])
  have uU: "unat (?top - ?bot) = U" using bt by (simp add: U_def unat_sub)
  have n: "unat (num_iterable_blocks fl g) = N"
  proof -
    have "1 \<le> ?ibs" using nz by (simp add: word_le_nat_alt unat_gt_0 Suc_le_eq)
    then have u1: "unat (?ibs - 1) = I - 1" by (simp add: unat_sub I_def)
    have "U + (I - 1) < 2 ^ 64" using big I0 by arith
    then have x: "unat (?top - ?bot + (?ibs - 1)) = U + (I - 1)"
      using unat_add_lem [of "?top - ?bot" "?ibs - 1"] by (simp add: uU u1)
    have e: "used_in_bytes g + ?ibs - 1 = ?top - ?bot + (?ibs - 1)"
      by (simp add: used)
    have "unat (num_iterable_blocks fl g) = unat (used_in_bytes g + ?ibs - 1) div unat ?ibs"
      unfolding num_iterable_blocks_def by (rule unat_div)
    also have "\<dots> = (U + (I - 1)) div I" by (simp only: e x I_def)
    finally show ?thesis by (simp only: N_def)
  qed
  have bb: "block_begin fl g (of_nat i) = B i" for i
    by (simp add: block_begin_def ptr_add_def B_def mult.assoc ibs8)
  have be: "block_end fl g (of_nat i) = min ?top (B (Suc i))" for i
  proof -
    have "ptr_add (B i) (?ibs div HeapWordSize) = B i + ?ibs"
      by (simp add: ptr_add_def ibs8)
    also have "\<dots> = B (Suc i)" by (simp add: B_def algebra_simps)
    finally show ?thesis by (simp add: block_end_def bb)
  qed
  have NI1: "U \<le> N * I" unfolding N_def by (rule nat_blocks(2) [OF I0])
  have NI2: "N * I < U + I" unfolding N_def by (rule nat_blocks(3) [OF I0])
  have uB: "unat (B i) = unat ?bot + i * I" if "i \<le> N" for i
  proof -
    have "i * I \<le> N * I" using that by (rule mult_le_mono1)
    then have "unat ?bot + i * I < 2 ^ 64" using NI2 big by arith
    then show ?thesis unfolding B_def I_def by (rule unat_boundary)
  qed
  have Blt: "B i < ?top" if "i < N" for i
  proof -
    have "i * I < U" using that unfolding N_def by (rule nat_blocks(1) [OF I0])
    then show ?thesis using that by (simp add: word_less_nat_alt uB ut)
  qed
  have Bmono: "B i \<le> B (Suc i)" if "i < N" for i
    using that by (simp add: word_le_nat_alt uB)
  have Bbot: "?bot \<le> B i" if "i \<le> N" for i
    using that by (simp add: word_le_nat_alt uB)
  have BN: "?top \<le> B N"
    using NI1 by (simp add: word_le_nat_alt uB ut)
  have f_lt: "f i = B i" if "i < N" for i
    using Blt [OF that] by (simp add: f_def min_absorb2 less_imp_le)
  have fS: "f i \<le> f (Suc i)" if "i < N" for i
    using Blt [OF that] Bmono [OF that] by (simp add: f_lt that f_def)
  have f0: "f 0 = ?bot" using bt by (simp add: f_def B_def min_absorb2)
  have fN: "f N = ?top" using BN by (simp add: f_def min_absorb1)
  have blk: "object_iterate_block fl heap g (of_nat i)
               = Some (filter (\<lambda>s. f i \<le> s \<and> s < f (Suc i)) ?ss)" if "i < N" for i
  proof -
    have b: "?bot \<le> B i" using that by (intro Bbot) simp
    have e: "min ?top (B (Suc i)) \<le> ?top" by simp
    have fi: "f i = B i" by (rule f_lt [OF that])
    have fs: "f (Suc i) = min ?top (B (Suc i))" by (simp only: f_def)
    show ?thesis
      unfolding object_iterate_block_def Let_def bb be fi fs
      by (rule block_visits [OF chain refl b e])
  qed
  have "concat (map (\<lambda>i. filter (\<lambda>s. f i \<le> s \<and> s < f (Suc i)) ?ss) [0..<N])
          = filter (\<lambda>s. f 0 \<le> s \<and> s < f N) ?ss"
    using concat_blocks [OF srt, of N f] fS by simp
  also have "\<dots> = ?ss" using rng by (simp add: f0 fN filter_id_conv)
  finally have cc: "concat (map (\<lambda>i. filter (\<lambda>s. f i \<le> s \<and> s < f (Suc i)) ?ss) [0..<N]) = ?ss" .
  have "iterate_blocks fl heap g [0..<N]
          = Some (concat (map (\<lambda>i. filter (\<lambda>s. f i \<le> s \<and> s < f (Suc i)) ?ss) [0..<N]))"
    using blk by (intro iterate_blocks_concat) simp
  then have all: "object_iterate_all fl heap g = Some ?ss"
    by (simp add: object_iterate_all_def n cc)
  have d: "distinct ?ss" using srt by (simp add: strict_sorted_iff)
  have "object_iterate_block fl heap g (of_nat i)
          = Some (filter (\<lambda>s. block_begin fl g (of_nat i) \<le> s \<and>
                               s < block_end fl g (of_nat i)) ?ss)"
    if "i < unat (num_iterable_blocks fl g)" for i
  proof -
    have i: "i < N" using that by (simp only: n)
    have fs: "f (Suc i) = min ?top (B (Suc i))" by (simp only: f_def)
    show ?thesis using blk [OF i] by (simp only: bb be f_lt [OF i] fs)
  qed
  moreover have "unat (num_iterable_blocks fl g)
           = (unat (used_in_bytes g) + (unat ?ibs - 1)) div unat ?ibs"
    by (simp only: n N_def used uU I_def)
  ultimately show ?thesis using all d by blast
qed



lemmas iterate_defs =
  object_iterate_all_def object_iterate_block_def block_begin_def block_end_def
  num_iterable_blocks_def used_in_bytes_def ms_used_in_bytes_def object_starts_in_range_def
  object_start_def ptr_add_def pointer_delta_def HeapWordSize_def

theorem object_iterate_block_visits_each_object_once_witness:
  "objects_from scenario_heap (ms_bottom (object_space scenario_populated))
     (sa_starts (start_array scenario_populated)) (ms_top (object_space scenario_populated)) \<and>
   IterateBlockSize (scenario_flags True True) \<noteq> 0 \<and>
   is_aligned (IterateBlockSize (scenario_flags True True)) HeapWordSize \<and>
   unat (ms_top (object_space scenario_populated))
     + unat (IterateBlockSize (scenario_flags True True)) \<le> 2 ^ 64 \<and>
   num_iterable_blocks (scenario_flags True True) scenario_populated = 3 \<and>
   object_iterate_all (scenario_flags True True) scenario_heap scenario_populated
     = Some [0x40000000, 0x400C0000, 0x40140000] \<and>
   object_iterate_block (scenario_flags True True) scenario_heap scenario_populated 0
     = Some [0x40000000, 0x400C0000] \<and>
   object_iterate_block (scenario_flags True True) scenario_heap scenario_populated 1
     = Some [0x40140000] \<and>
   object_iterate_block (scenario_flags True True) scenario_heap scenario_populated 2
     = Some []"
proof -
  have h1: "objects_from scenario_heap (ms_bottom (object_space scenario_populated))
     (sa_starts (start_array scenario_populated)) (ms_top (object_space scenario_populated))"
    by (simp add: scenario_populated_def scenario_defs scenario_heap_def ptr_add_def
        HeapWordSize_def)
  have h2: "IterateBlockSize (scenario_flags True True) \<noteq> 0"
    by (simp add: scenario_defs)
  have h3: "is_aligned (IterateBlockSize (scenario_flags True True)) HeapWordSize"
    by (simp add: scenario_defs is_aligned_def HeapWordSize_def)
  have h4: "unat (ms_top (object_space scenario_populated))
     + unat (IterateBlockSize (scenario_flags True True)) \<le> 2 ^ 64"
    by (simp add: scenario_populated_def scenario_defs)
  have n: "num_iterable_blocks (scenario_flags True True) scenario_populated = 3"
    by (simp add: iterate_defs scenario_populated_def scenario_defs)
  note t = object_iterate_block_visits_each_object_once [OF h1 h2 h3 h4]
  have a: "object_iterate_all (scenario_flags True True) scenario_heap scenario_populated
     = Some [0x40000000, 0x400C0000, 0x40140000]"
    using t by (simp add: scenario_populated_def scenario_defs)
  have b: "object_iterate_block (scenario_flags True True) scenario_heap scenario_populated
             (of_nat i)
     = Some (filter (\<lambda>s. block_begin (scenario_flags True True) scenario_populated (of_nat i) \<le> s \<and>
                         s < block_end (scenario_flags True True) scenario_populated (of_nat i))
               (sa_starts (start_array scenario_populated)))" if "i < 3" for i
    using t that by (simp add: n)
  have b0: "object_iterate_block (scenario_flags True True) scenario_heap scenario_populated 0
     = Some [0x40000000, 0x400C0000]"
    using b [of 0] by (simp add: block_begin_def block_end_def ptr_add_def HeapWordSize_def
        scenario_populated_def scenario_defs)
  have b1: "object_iterate_block (scenario_flags True True) scenario_heap scenario_populated 1
     = Some [0x40140000]"
    using b [of 1] by (simp add: block_begin_def block_end_def ptr_add_def HeapWordSize_def
        scenario_populated_def scenario_defs)
  have b2: "object_iterate_block (scenario_flags True True) scenario_heap scenario_populated 2
     = Some []"
    using b [of 2] by (simp add: block_begin_def block_end_def ptr_add_def HeapWordSize_def
        scenario_populated_def scenario_defs)
  show ?thesis using h1 h2 h3 h4 n a b0 b1 b2 by simp
qed

end
